theory Spec2Isabelle
  imports Main "HOL-Library.Sublist" "HOL-Library.Multiset"
begin

section \<open>Data model of main.go\<close>

text \<open>
  The struct \<^verbatim>\<open>domainResult\<close> (main.go, lines 20-25) that a worker builds from one probe
  and sends to the reporter.
\<close>

record domainResult =
  domain :: string
  hasOIDC :: bool
  oidcURL :: string
  timedOut :: bool

text \<open>
  One row of the table \<^verbatim>\<open>domains(name TEXT PRIMARY KEY, has_oidc BOOLEAN NOT NULL,
  tested_at DATETIME)\<close> created at lines 80-86. The table is the list of its rows; the time
  stamp is a number of seconds read from the database clock.
\<close>

record row =
  name :: string
  has_oidc :: bool
  tested_at :: nat

type_synonym table = "row list"

text \<open>
  What the HTTP exchange of \<^verbatim>\<open>testOIDCWithTimeout\<close> can give back. The network is not part
  of the program, so the outcome of the exchange is an input of the model:
  \<^item> \<open>NewRequestError\<close>: \<^verbatim>\<open>http.NewRequestWithContext\<close> returned an error (line 307);
  \<^item> \<open>DoError b\<close>: \<^verbatim>\<open>client.Do\<close> returned an error (line 313), and \<open>b\<close> tells whether
    \<^verbatim>\<open>ctx.Err() == context.DeadlineExceeded\<close> held at line 315;
  \<^item> \<open>Response r\<close>: \<^verbatim>\<open>client.Do\<close> returned the response \<open>r\<close>.
  Of a response the code reads the status code and the header only. A header maps a
  canonical key to the list of its values, as \<^verbatim>\<open>http.Header\<close> does.
\<close>

record response =
  StatusCode :: int
  Header :: "string \<rightharpoonup> string list"

datatype exchange = NewRequestError | DoError bool | Response response

section \<open>The probe\<close>

text \<open>\<^verbatim>\<open>Header.Get\<close>: the first value stored under the key, the empty string when there is none.\<close>

definition Header_Get :: "(string \<rightharpoonup> string list) \<Rightarrow> string \<Rightarrow> string" where
  "Header_Get h k = (case h k of None \<Rightarrow> [] | Some [] \<Rightarrow> [] | Some (v # _) \<Rightarrow> v)"

text \<open>
  \<^verbatim>\<open>strings.Contains(s, substr)\<close>: does \<open>substr\<close> occur in \<open>s\<close> as a contiguous run of bytes.
  The search tries every position of \<open>s\<close> from the left.
\<close>

fun Contains :: "string \<Rightarrow> string \<Rightarrow> bool" where
  "Contains [] substr = (substr = [])"
| "Contains (c # s) substr = (prefix substr (c # s) \<or> Contains s substr)"

text \<open>The URL built at line 294 with \<^verbatim>\<open>fmt.Sprintf("https://%s/.well-known/openid-configuration", domain)\<close>.\<close>

definition probe_url :: "string \<Rightarrow> string" where
  "probe_url d = ''https://'' @ d @ ''/.well-known/openid-configuration''"

text \<open>
  \<^verbatim>\<open>testOIDCWithTimeout\<close> (lines 293-328). The result is the triple
  \<open>(oidcURL, hasOIDC, timedOut)\<close> of the Go function. The number of seconds only sets the
  deadline of the exchange; whether the deadline passed is part of the \<open>exchange\<close>.
\<close>

fun testOIDCWithTimeout :: "string \<Rightarrow> int \<Rightarrow> exchange \<Rightarrow> string \<times> bool \<times> bool" where
  "testOIDCWithTimeout d timeoutSecs NewRequestError = ([], False, False)"
| "testOIDCWithTimeout d timeoutSecs (DoError deadline_exceeded) =
     (if deadline_exceeded then ([], False, True) else ([], False, False))"
| "testOIDCWithTimeout d timeoutSecs (Response resp) =
     (let ct = Header_Get (Header resp) ''Content-Type'' in
      if StatusCode resp = 200 \<and> Contains ct ''application/json''
      then (probe_url d, True, False)
      else ([], False, False))"

text \<open>
  What the probe writes with \<^verbatim>\<open>log.Printf\<close> (line 316; the date prefix of the logger is left
  out) and which requests it puts on the network: \<^verbatim>\<open>client.Do\<close> is reached unless the
  request could not be built.
\<close>

fun testOIDCWithTimeout_log :: "string \<Rightarrow> exchange \<Rightarrow> string list" where
  "testOIDCWithTimeout_log d (DoError deadline_exceeded) =
     (if deadline_exceeded then [''Timeout testing '' @ d] else [])"
| "testOIDCWithTimeout_log d x = []"

fun testOIDCWithTimeout_requests :: "string \<Rightarrow> exchange \<Rightarrow> string list" where
  "testOIDCWithTimeout_requests d NewRequestError = []"
| "testOIDCWithTimeout_requests d x = [probe_url d]"

section \<open>The store\<close>

text \<open>
  \<^verbatim>\<open>db.QueryRow(`SELECT has_oidc FROM domains WHERE name = ?`, domain).Scan(&exists)\<close>
  (line 204). The call gives the column of the first row with that name, the error
  \<^verbatim>\<open>sql.ErrNoRows\<close> when no row has it, or any other error of the database, which is an
  input of the model (\<open>fault\<close>).
\<close>

datatype sql_error = ErrNoRows | QueryError string

definition QueryRow_has_oidc :: "table \<Rightarrow> string \<Rightarrow> string option \<Rightarrow> sql_error + bool" where
  "QueryRow_has_oidc tbl d fault =
     (case fault of
        Some e \<Rightarrow> Inl (QueryError e)
      | None \<Rightarrow> (case find (\<lambda>r. name r = d) tbl of
                  None \<Rightarrow> Inl ErrNoRows
                | Some r \<Rightarrow> Inr (has_oidc r)))"

text \<open>
  \<^verbatim>\<open>INSERT INTO domains(name, has_oidc) VALUES(?, ?) ON CONFLICT(name) DO UPDATE SET
  has_oidc=excluded.has_oidc, tested_at=CURRENT_TIMESTAMP\<close> (lines 225-228): a row with the
  name is overwritten in place, otherwise a new row is added.
\<close>

definition upsert :: "string \<Rightarrow> bool \<Rightarrow> nat \<Rightarrow> table \<Rightarrow> table" where
  "upsert d v now tbl =
     (if d \<in> set (map name tbl)
      then map (\<lambda>r. if name r = d then r\<lparr>has_oidc := v, tested_at := now\<rparr> else r) tbl
      else tbl @ [\<lparr>name = d, has_oidc = v, tested_at = now\<rparr>])"

text \<open>The rows of a domain, and the store seen through the interface of the specification.\<close>

definition rows_of :: "table \<Rightarrow> string \<Rightarrow> row list" where
  "rows_of tbl d = filter (\<lambda>r. name r = d) tbl"

definition lookup :: "table \<Rightarrow> string \<Rightarrow> bool option" where
  "lookup tbl d = map_option has_oidc (find (\<lambda>r. name r = d) tbl)"

section \<open>The output artifact\<close>

text \<open>
  \<^verbatim>\<open>appendToFile\<close> (lines 330-341). The file is its content, \<open>None\<close> while it does not exist.
  Whether opening or writing fails is an input; a failed write may have written the first
  \<open>n\<close> bytes. The function gives the file afterwards and the lines it logged.
\<close>

datatype append_outcome = AppendOK | OpenFails string | WriteFails nat string

definition appendToFile ::
  "string \<Rightarrow> string \<Rightarrow> append_outcome \<Rightarrow> string option \<Rightarrow> string option \<times> string list" where
  "appendToFile filename content a f =
     (let old = (case f of None \<Rightarrow> [] | Some c \<Rightarrow> c) in
      case a of
        OpenFails e \<Rightarrow> (f, [''Failed to open output file '' @ filename @ '': '' @ e])
      | WriteFails n e \<Rightarrow>
          (Some (old @ take n (content @ [CHR 0x0A])),
           [''Failed to write to output file '' @ filename @ '': '' @ e])
      | AppendOK \<Rightarrow> (Some (old @ content @ [CHR 0x0A]), []))"

section \<open>Lines printed for the user\<close>

text \<open>
  The three \<^verbatim>\<open>fmt.Printf\<close> of the reporting loop (lines 187-193) and the one of the worker
  (line 208). The signs at the end of the lines are written as their UTF-8 bytes.
\<close>

definition report_line :: "domainResult \<Rightarrow> string" where
  "report_line r =
     (if timedOut r
      then domain r @ '': request timed out (skipped) '' @ [CHR 0xE2, CHR 0x8F, CHR 0xB0, CHR 0x0A]
      else if hasOIDC r
      then domain r @ '': OIDC endpoint found '' @ [CHR 0xE2, CHR 0x9C, CHR 0x85, CHR 0x0A]
      else domain r @ '': no OIDC endpoint '' @ [CHR 0xE2, CHR 0x9D, CHR 0x8C, CHR 0x0A])"

definition known_line :: "string \<Rightarrow> bool \<Rightarrow> string" where
  "known_line d ex =
     d @ '': already known (has_oidc='' @ (if ex then ''true'' else ''false'') @ '')'' @ [CHR 0x0A]"

section \<open>The concurrent run of processFile\<close>

text \<open>
  The parameters of \<^verbatim>\<open>processFile\<close> (line 135) after the input file has been read:
  \<open>domains\<close> is the slice built at lines 143-154.
\<close>

record config =
  domains :: "string list"
  outFile :: string
  parallel :: int
  timeoutSecs :: int

text \<open>
  The loop of lines 145-154 over the lines the scanner gives. \<^verbatim>\<open>strings.TrimSpace\<close> is a
  function of the Go library and a parameter here.
\<close>

definition read_domains :: "(string \<Rightarrow> string) \<Rightarrow> string \<Rightarrow> string list \<Rightarrow> string list" where
  "read_domains TrimSpace pfx lines =
     map (\<lambda>d. if pfx \<noteq> [] then pfx @ ''.'' @ d else d)
       (filter (\<lambda>d. d \<noteq> []) (map TrimSpace lines))"

text \<open>
  Where each goroutine stands.
  The main goroutine fills the domain channel (lines 164-166, the domains still to send),
  closes it (167), starts the workers (174-177, the loop counter), starts the supervisor
  (180-183) and then reports (186-194).
  A worker (lines 197-245) is before the receive of line 200, before the query of line 204
  with the domain it received, before one of the statements of lines 208, 213, 225, 238
  and 243, or has returned.
\<close>

datatype mstate = MPopulate "string list" | MSpawn int | MRecv | MPrint domainResult | MDone

datatype sstate = SNotStarted | SWaiting | SDone

datatype wstate =
    WIdle
  | WLookup string
  | WKnown string bool
  | WProbe string
  | WUpsert domainResult
  | WAppend domainResult
  | WSend domainResult
  | WDone

datatype thread = MainT | WorkerT nat

text \<open>
  The shared state. The two channels are the lists of the values they buffer, the oldest
  first. \<open>net\<close> lists the URLs requested. \<open>probed\<close>, \<open>sent\<close> and \<open>persisted\<close> are
  history only: the results of the probes that returned, the results pushed on the result
  channel and the results whose upsert succeeded, each in the order of the events; no
  transition reads them. A printed line carries the goroutine that printed it.
\<close>

record state =
  main :: mstate
  sup :: sstate
  workers :: "wstate list"
  wg :: int
  domainChan :: "string list"
  domainChan_closed :: bool
  resultChan :: "domainResult list"
  resultChan_closed :: bool
  db :: table
  outfile :: "string option"
  stdout :: "(thread \<times> string) list"
  logs :: "string list"
  net :: "string list"
  probed :: "domainResult list"
  sent :: "domainResult list"
  persisted :: "domainResult list"

text \<open>
  One event is one access of one goroutine to a shared resource, with what the
  environment answers: the fault of the query, the exchange of the probe, the fault of the
  upsert and the time of the database, the outcome of the append.
\<close>

datatype event =
    Enqueue
  | CloseQueue
  | Spawn
  | GoSupervisor
  | SupClose
  | RepRecv
  | RepPrint
  | Recv nat
  | Lookup nat "string option"
  | PrintKnown nat
  | Probe nat exchange
  | Upsert nat "string option" nat
  | Append nat append_outcome
  | Send nat

text \<open>Both channels are made with the capacity \<^verbatim>\<open>len(domains)\<close> (lines 160-161).\<close>

definition cap :: "config \<Rightarrow> nat" where
  "cap cfg = length (domains cfg)"

definition set_worker :: "nat \<Rightarrow> wstate \<Rightarrow> state \<Rightarrow> state" where
  "set_worker i w s = s\<lparr>workers := (workers s)[i := w]\<rparr>"

text \<open>The result a worker builds at lines 213-220.\<close>

definition probe_result :: "config \<Rightarrow> string \<Rightarrow> exchange \<Rightarrow> domainResult" where
  "probe_result cfg d x =
     (case testOIDCWithTimeout d (timeoutSecs cfg) x of
        (u, h, t) \<Rightarrow> \<lparr>domain = d, hasOIDC = h, oidcURL = u, timedOut = t\<rparr>)"

text \<open>
  The statements of a worker, one function for each program point. Each gives \<open>None\<close>
  when the worker cannot take the step: a receive on an empty channel that is still open
  and a send on a full channel block, a send on a closed channel and a \<^verbatim>\<open>wg.Done\<close> on
  a counter that is zero panic.
\<close>

definition worker_step :: "config \<Rightarrow> nat \<Rightarrow> event \<Rightarrow> wstate \<Rightarrow> state \<Rightarrow> state option" where
  "worker_step cfg i e w s =
     (case e of
        Recv j \<Rightarrow>
          (case w of
             WIdle \<Rightarrow>
               (case domainChan s of
                  d # ds \<Rightarrow> Some (set_worker i (WLookup d) (s\<lparr>domainChan := ds\<rparr>))
                | [] \<Rightarrow> if domainChan_closed s \<and> 0 < wg s
                        then Some (set_worker i WDone (s\<lparr>wg := wg s - 1\<rparr>))
                        else None)
           | _ \<Rightarrow> None)
      | Lookup j fault \<Rightarrow>
          (case w of
             WLookup d \<Rightarrow>
               (case QueryRow_has_oidc (db s) d fault of
                  Inr ex \<Rightarrow> Some (set_worker i (WKnown d ex) s)
                | Inl err \<Rightarrow> Some (set_worker i (WProbe d) s))
           | _ \<Rightarrow> None)
      | PrintKnown j \<Rightarrow>
          (case w of
             WKnown d ex \<Rightarrow>
               Some (set_worker i WIdle (s\<lparr>stdout := stdout s @ [(WorkerT i, known_line d ex)]\<rparr>))
           | _ \<Rightarrow> None)
      | Probe j x \<Rightarrow>
          (case w of
             WProbe d \<Rightarrow>
               (let r = probe_result cfg d x in
                Some (set_worker i (if \<not> timedOut r then WUpsert r else WSend r)
                  (s\<lparr>net := net s @ testOIDCWithTimeout_requests d x,
                     logs := logs s @ testOIDCWithTimeout_log d x,
                     probed := probed s @ [r]\<rparr>)))
           | _ \<Rightarrow> None)
      | Upsert j fault now \<Rightarrow>
          (case w of
             WUpsert r \<Rightarrow>
               (let next = (if hasOIDC r \<and> outFile cfg \<noteq> [] then WAppend r else WSend r) in
                case fault of
                  None \<Rightarrow> Some (set_worker i next
                    (s\<lparr>db := upsert (domain r) (hasOIDC r) now (db s),
                       persisted := persisted s @ [r]\<rparr>))
                | Some err \<Rightarrow> Some (set_worker i next
                    (s\<lparr>logs := logs s @ [''Failed to insert '' @ domain r @ '': '' @ err]\<rparr>)))
           | _ \<Rightarrow> None)
      | Append j a \<Rightarrow>
          (case w of
             WAppend r \<Rightarrow>
               (case appendToFile (outFile cfg) (oidcURL r) a (outfile s) of
                  (f, l) \<Rightarrow> Some (set_worker i (WSend r) (s\<lparr>outfile := f, logs := logs s @ l\<rparr>)))
           | _ \<Rightarrow> None)
      | Send j \<Rightarrow>
          (case w of
             WSend r \<Rightarrow>
               if length (resultChan s) < cap cfg \<and> \<not> resultChan_closed s
               then Some (set_worker i WIdle
                 (s\<lparr>resultChan := resultChan s @ [r], sent := sent s @ [r]\<rparr>))
               else None
           | _ \<Rightarrow> None)
      | _ \<Rightarrow> None)"

text \<open>
  One step of the whole program: the event names the goroutine, and the step is the
  statement at which that goroutine stands.
\<close>

fun worker_of :: "event \<Rightarrow> nat option" where
  "worker_of (Recv i) = Some i"
| "worker_of (Lookup i fault) = Some i"
| "worker_of (PrintKnown i) = Some i"
| "worker_of (Probe i x) = Some i"
| "worker_of (Upsert i fault now) = Some i"
| "worker_of (Append i a) = Some i"
| "worker_of (Send i) = Some i"
| "worker_of e = None"

fun main_step :: "config \<Rightarrow> event \<Rightarrow> state \<Rightarrow> state option" where
  "main_step cfg Enqueue s =
     (case main s of
        MPopulate (d # ds) \<Rightarrow>
          if length (domainChan s) < cap cfg
          then Some (s\<lparr>domainChan := domainChan s @ [d], main := MPopulate ds\<rparr>)
          else None
      | _ \<Rightarrow> None)"
| "main_step cfg CloseQueue s =
     (case main s of
        MPopulate [] \<Rightarrow> Some (s\<lparr>domainChan_closed := True, main := MSpawn 0\<rparr>)
      | _ \<Rightarrow> None)"
| "main_step cfg Spawn s =
     (case main s of
        MSpawn i \<Rightarrow>
          if i < parallel cfg
          then Some (s\<lparr>wg := wg s + 1, workers := workers s @ [WIdle], main := MSpawn (i + 1)\<rparr>)
          else None
      | _ \<Rightarrow> None)"
| "main_step cfg GoSupervisor s =
     (case main s of
        MSpawn i \<Rightarrow>
          if i < parallel cfg then None else Some (s\<lparr>sup := SWaiting, main := MRecv\<rparr>)
      | _ \<Rightarrow> None)"
| "main_step cfg SupClose s =
     (case sup s of
        SWaiting \<Rightarrow>
          if wg s = 0 then Some (s\<lparr>resultChan_closed := True, sup := SDone\<rparr>) else None
      | _ \<Rightarrow> None)"
| "main_step cfg RepRecv s =
     (case main s of
        MRecv \<Rightarrow>
          (case resultChan s of
             r # rs \<Rightarrow> Some (s\<lparr>resultChan := rs, main := MPrint r\<rparr>)
           | [] \<Rightarrow> if resultChan_closed s then Some (s\<lparr>main := MDone\<rparr>) else None)
      | _ \<Rightarrow> None)"
| "main_step cfg RepPrint s =
     (case main s of
        MPrint r \<Rightarrow> Some (s\<lparr>stdout := stdout s @ [(MainT, report_line r)], main := MRecv\<rparr>)
      | _ \<Rightarrow> None)"
| "main_step cfg e s = None"

definition step :: "config \<Rightarrow> event \<Rightarrow> state \<Rightarrow> state option" where
  "step cfg e s =
     (case worker_of e of
        None \<Rightarrow> main_step cfg e s
      | Some i \<Rightarrow> if i < length (workers s) then worker_step cfg i e (workers s ! i) s else None)"

text \<open>
  An event of a worker fits the program point at which the worker stands, whatever the
  environment answers in it.
\<close>

definition at_point :: "event \<Rightarrow> wstate \<Rightarrow> bool" where
  "at_point e w =
     (case e of
        Recv i \<Rightarrow> w = WIdle
      | Lookup i fault \<Rightarrow> (case w of WLookup d \<Rightarrow> True | _ \<Rightarrow> False)
      | PrintKnown i \<Rightarrow> (case w of WKnown d ex \<Rightarrow> True | _ \<Rightarrow> False)
      | Probe i x \<Rightarrow> (case w of WProbe d \<Rightarrow> True | _ \<Rightarrow> False)
      | Upsert i fault now \<Rightarrow> (case w of WUpsert r \<Rightarrow> True | _ \<Rightarrow> False)
      | Append i a \<Rightarrow> (case w of WAppend r \<Rightarrow> True | _ \<Rightarrow> False)
      | Send i \<Rightarrow> (case w of WSend r \<Rightarrow> True | _ \<Rightarrow> False)
      | _ \<Rightarrow> False)"

text \<open>A schedule is a list of events; the run is undefined once an event cannot happen.\<close>

fun run :: "config \<Rightarrow> event list \<Rightarrow> state \<Rightarrow> state option" where
  "run cfg [] s = Some s"
| "run cfg (e # es) s = (case step cfg e s of None \<Rightarrow> None | Some s' \<Rightarrow> run cfg es s')"

text \<open>
  The state in which \<^verbatim>\<open>processFile\<close> reaches line 164, with the store and the output file
  as they are found.
\<close>

definition init :: "config \<Rightarrow> table \<Rightarrow> string option \<Rightarrow> state" where
  "init cfg tbl f =
     \<lparr>main = MPopulate (domains cfg), sup = SNotStarted, workers = [], wg = 0,
      domainChan = [], domainChan_closed = False, resultChan = [], resultChan_closed = False,
      db = tbl, outfile = f, stdout = [], logs = [], net = [], probed = [], sent = [],
      persisted = []\<rparr>"

definition reporter_lines :: "state \<Rightarrow> string list" where
  "reporter_lines s = map snd (filter (\<lambda>p. fst p = MainT) (stdout s))"

section \<open>Invariants and a bound on the length of runs\<close>

text \<open>
  The domains the main goroutine has still to send, the result the reporter has received
  and not yet printed, whether a worker holds an item, and the result a worker holds after
  the probe.
\<close>

fun unsent :: "mstate \<Rightarrow> string list" where
  "unsent (MPopulate ds) = ds"
| "unsent m = []"

fun pending :: "mstate \<Rightarrow> domainResult list" where
  "pending (MPrint r) = [r]"
| "pending m = []"

fun in_flight :: "wstate \<Rightarrow> bool" where
  "in_flight WIdle = False"
| "in_flight WDone = False"
| "in_flight w = True"

fun result_of :: "wstate \<Rightarrow> domainResult list" where
  "result_of (WUpsert r) = [r]"
| "result_of (WAppend r) = [r]"
| "result_of (WSend r) = [r]"
| "result_of w = []"

text \<open>
  \<open>inv_phase\<close>: no worker exists while the domain channel is filled; the channel is
  closed before the first worker is started, the supervisor is started after the last.
  \<open>inv_wg\<close>: the wait group counts the workers that have not returned.
  \<open>inv_close\<close>: the result channel is closed by the supervisor, after the count is zero.
  \<open>inv_queue\<close>: what is still to send or in the channel is the rest of the input list.
  \<open>inv_cap\<close>: the items in the channel, in the hands of workers and already sent on do
  not exceed the capacity of the channels.
  \<open>inv_report\<close>: the reporter has printed the lines of the results it consumed, in order.
\<close>

definition inv_phase :: "config \<Rightarrow> state \<Rightarrow> bool" where
  "inv_phase cfg s =
     (case main s of
        MPopulate ds \<Rightarrow> workers s = [] \<and> \<not> domainChan_closed s \<and> sup s = SNotStarted
      | MSpawn k \<Rightarrow> domainChan_closed s \<and> sup s = SNotStarted \<and> k = int (length (workers s)) \<and>
          length (workers s) \<le> nat (parallel cfg)
      | _ \<Rightarrow> domainChan_closed s \<and> sup s \<noteq> SNotStarted \<and>
          length (workers s) = nat (parallel cfg))"

definition inv_wg :: "state \<Rightarrow> bool" where
  "inv_wg s = (wg s = int (length (filter (\<lambda>w. w \<noteq> WDone) (workers s))))"

definition inv_close :: "state \<Rightarrow> bool" where
  "inv_close s =
     ((resultChan_closed s \<longleftrightarrow> sup s = SDone) \<and>
      (sup s = SDone \<longrightarrow> wg s = 0) \<and>
      (main s = MDone \<longrightarrow> resultChan_closed s \<and> resultChan s = []))"

definition inv_queue :: "config \<Rightarrow> state \<Rightarrow> bool" where
  "inv_queue cfg s =
     (suffix (domainChan s @ unsent (main s)) (domains cfg) \<and>
      (workers s = [] \<longrightarrow> domainChan s @ unsent (main s) = domains cfg))"

definition inv_cap :: "config \<Rightarrow> state \<Rightarrow> bool" where
  "inv_cap cfg s =
     (length (domainChan s) + length (unsent (main s)) + length (filter in_flight (workers s)) +
        length (sent s) \<le> cap cfg \<and>
      length (resultChan s) \<le> length (sent s))"

definition inv_report :: "state \<Rightarrow> bool" where
  "inv_report s =
     (map report_line (sent s) =
        reporter_lines s @ map report_line (pending (main s) @ resultChan s))"

text \<open>
  An upper bound on the number of events that can still happen in a state: every event
  lowers it.
\<close>

fun wstate_budget :: "wstate \<Rightarrow> nat" where
  "wstate_budget WDone = 0"
| "wstate_budget WIdle = 1"
| "wstate_budget (WKnown d ex) = 2"
| "wstate_budget (WSend r) = 4"
| "wstate_budget (WAppend r) = 5"
| "wstate_budget (WUpsert r) = 6"
| "wstate_budget (WProbe d) = 7"
| "wstate_budget (WLookup d) = 8"

fun mstate_budget :: "config \<Rightarrow> mstate \<Rightarrow> nat" where
  "mstate_budget cfg MDone = 0"
| "mstate_budget cfg MRecv = 1"
| "mstate_budget cfg (MPrint r) = 2"
| "mstate_budget cfg (MSpawn k) = 3 + 2 * nat (parallel cfg - k)"
| "mstate_budget cfg (MPopulate ds) = 4 + 2 * nat (parallel cfg) + 9 * length ds"

fun sstate_budget :: "sstate \<Rightarrow> nat" where
  "sstate_budget SDone = 0"
| "sstate_budget s = 1"

definition budget :: "config \<Rightarrow> state \<Rightarrow> nat" where
  "budget cfg s =
     mstate_budget cfg (main s) + sstate_budget (sup s) +
     sum_list (map wstate_budget (workers s)) +
     8 * length (domainChan s) + 2 * length (resultChan s)"

text \<open>
  \<open>inv_hist\<close>: every result of a probe has been pushed on the result channel or is held
  by the worker that probed; a worker before the upsert or the append holds a result that
  did not time out; what has been upserted did not time out and was probed in this run.
  \<open>inv_db\<close>: the store holds for each domain the value of the last successful upsert of
  the run, or what it held before the run when there was none; names stay distinct.
  \<open>inv_drain\<close>: a worker returns only when the domain channel is empty.
\<close>

fun wstate_ok :: "wstate \<Rightarrow> bool" where
  "wstate_ok (WUpsert r) = (\<not> timedOut r)"
| "wstate_ok (WAppend r) = (\<not> timedOut r \<and> hasOIDC r)"
| "wstate_ok w = True"

definition inv_hist :: "state \<Rightarrow> bool" where
  "inv_hist s =
     (mset (probed s) = mset (sent s) + mset (concat (map result_of (workers s))) \<and>
      (\<forall>w \<in> set (workers s). wstate_ok w) \<and>
      (\<forall>r \<in> set (persisted s). \<not> timedOut r) \<and>
      set (persisted s) \<subseteq> set (probed s))"

definition last_persisted :: "state \<Rightarrow> string \<Rightarrow> domainResult option" where
  "last_persisted s d = find (\<lambda>r. domain r = d) (rev (persisted s))"

definition inv_db :: "table \<Rightarrow> state \<Rightarrow> bool" where
  "inv_db tbl s =
     ((\<forall>d. lookup (db s) d =
         (case last_persisted s d of None \<Rightarrow> lookup tbl d | Some r \<Rightarrow> Some (hasOIDC r))) \<and>
      (distinct (map name tbl) \<longrightarrow> distinct (map name (db s))))"

definition inv_drain :: "state \<Rightarrow> bool" where
  "inv_drain s = (WDone \<in> set (workers s) \<longrightarrow> domainChan s = [])"

definition inv :: "config \<Rightarrow> table \<Rightarrow> state \<Rightarrow> bool" where
  "inv cfg tbl s =
     (inv_phase cfg s \<and> inv_wg s \<and> inv_close s \<and> inv_queue cfg s \<and> inv_cap cfg s \<and>
      inv_report s \<and> inv_hist s \<and> inv_db tbl s \<and> inv_drain s)"

text \<open>
  An event in which the query of line 204 fails for another reason than a missing row, and
  the invariant of a run without such an event over a store that knows every input
  domain: no worker ever leaves the branch of line 207.
\<close>

fun lookup_fault :: "event \<Rightarrow> bool" where
  "lookup_fault (Lookup i (Some err)) = True"
| "lookup_fault e = False"

fun quiet :: "config \<Rightarrow> wstate \<Rightarrow> bool" where
  "quiet cfg WIdle = True"
| "quiet cfg WDone = True"
| "quiet cfg (WKnown d ex) = True"
| "quiet cfg (WLookup d) = (d \<in> set (domains cfg))"
| "quiet cfg w = False"

definition inv_known :: "config \<Rightarrow> table \<Rightarrow> string option \<Rightarrow> state \<Rightarrow> bool" where
  "inv_known cfg tbl f s =
     (db s = tbl \<and> outfile s = f \<and> net s = [] \<and> probed s = [] \<and> sent s = [] \<and>
      persisted s = [] \<and> logs s = [] \<and>
      set (domainChan s) \<subseteq> set (domains cfg) \<and> set (unsent (main s)) \<subseteq> set (domains cfg) \<and>
      (\<forall>w \<in> set (workers s). quiet cfg w))"

text \<open>
  Where the input domains are during a run. \<open>holding w\<close> is the domain a worker has
  received and has neither reported as already known nor probed yet; \<open>worker_lines\<close> are
  the lines printed by the workers, which are the "already known" lines. \<open>inv_handled\<close>
  says that the occurrences of the domains of the input list are, counted with their
  multiplicity, those reported as already known, those probed, those held by a worker,
  those in the domain channel and those not enqueued yet: no occurrence is dropped and
  none is invented.
\<close>

fun holding :: "wstate \<Rightarrow> string list" where
  "holding (WLookup d) = [d]"
| "holding (WKnown d ex) = [d]"
| "holding (WProbe d) = [d]"
| "holding w = []"

definition worker_lines :: "state \<Rightarrow> string list" where
  "worker_lines s = map snd (filter (\<lambda>p. fst p \<noteq> MainT) (stdout s))"

definition inv_handled :: "config \<Rightarrow> state \<Rightarrow> bool" where
  "inv_handled cfg s =
     (\<exists>kn. worker_lines s = map (\<lambda>p. known_line (fst p) (snd p)) kn \<and>
        mset (domains cfg) =
          mset (map fst kn) + mset (map domain (probed s)) +
          mset (concat (map holding (workers s))) + mset (domainChan s) +
          mset (unsent (main s)))"

section \<open>Example runs\<close>

text \<open>
  Concrete parameters, states and schedules, on which the theorems below are instantiated
  and evaluated. The first example has one domain and one worker; \<open>at_probe\<close> is the state
  in which that worker has received the domain, found no row and stands before the probe.
\<close>

definition cfg_one :: config where
  "cfg_one = \<lparr>domains = [''bad.example''], outFile = ''found.txt'', parallel = 1, timeoutSecs = 30\<rparr>"

definition to_probe :: "event list" where
  "to_probe = [Enqueue, CloseQueue, Spawn, GoSupervisor, Recv 0, Lookup 0 None]"

definition at_probe :: state where
  "at_probe = \<lparr>main = MRecv, sup = SWaiting, workers = [WProbe ''bad.example''], wg = 1,
      domainChan = [], domainChan_closed = True, resultChan = [], resultChan_closed = False,
      db = [], outfile = None, stdout = [], logs = [], net = [], probed = [], sent = [],
      persisted = []\<rparr>"

text \<open>
  The second example has one domain whose row is in the store before the run;
  \<open>at_lookup_known\<close> is the state in which the worker has received the domain and stands
  before the query.
\<close>

definition cfg_known :: config where
  "cfg_known = \<lparr>domains = [''known.example''], outFile = [], parallel = 1, timeoutSecs = 30\<rparr>"

definition tbl_known :: table where
  "tbl_known = [\<lparr>name = ''known.example'', has_oidc = True, tested_at = 1700000000\<rparr>]"

definition to_lookup :: "event list" where
  "to_lookup = [Enqueue, CloseQueue, Spawn, GoSupervisor, Recv 0]"

definition at_lookup_known :: state where
  "at_lookup_known = \<lparr>main = MRecv, sup = SWaiting, workers = [WLookup ''known.example''], wg = 1,
      domainChan = [], domainChan_closed = True, resultChan = [], resultChan_closed = False,
      db = tbl_known, outfile = None, stdout = [], logs = [], net = [], probed = [], sent = [],
      persisted = []\<rparr>"

text \<open>
  The whole run of the first example, in which the upsert fails; \<open>at_upsert\<close> is the state
  before the upsert and \<open>done_one\<close> the state in which \<^verbatim>\<open>processFile\<close> returns.
\<close>

definition full_one :: "event list" where
  "full_one = to_probe @ [Probe 0 (DoError False), Upsert 0 (Some ''disk I/O error'') 1700000000,
     Send 0, Recv 0, SupClose, RepRecv, RepPrint, RepRecv]"

definition at_upsert :: state where
  "at_upsert = \<lparr>main = MRecv, sup = SWaiting,
      workers = [WUpsert \<lparr>domain = ''bad.example'', hasOIDC = False, oidcURL = [], timedOut = False\<rparr>],
      wg = 1, domainChan = [], domainChan_closed = True, resultChan = [],
      resultChan_closed = False, db = [], outfile = None, stdout = [], logs = [],
      net = [''https://bad.example/.well-known/openid-configuration''],
      probed = [\<lparr>domain = ''bad.example'', hasOIDC = False, oidcURL = [], timedOut = False\<rparr>],
      sent = [], persisted = []\<rparr>"

definition done_one :: state where
  "done_one = \<lparr>main = MDone, sup = SDone, workers = [WDone], wg = 0,
      domainChan = [], domainChan_closed = True, resultChan = [], resultChan_closed = True,
      db = [], outfile = None,
      stdout = [(MainT, ''bad.example: no OIDC endpoint '' @ [CHR 0xE2, CHR 0x9D, CHR 0x8C, CHR 0x0A])],
      logs = [''Failed to insert bad.example: disk I/O error''],
      net = [''https://bad.example/.well-known/openid-configuration''],
      probed = [\<lparr>domain = ''bad.example'', hasOIDC = False, oidcURL = [], timedOut = False\<rparr>],
      sent = [\<lparr>domain = ''bad.example'', hasOIDC = False, oidcURL = [], timedOut = False\<rparr>],
      persisted = []\<rparr>"

text \<open>
  Two exchanges, and the examples with a domain that is listed twice: two workers
  (\<open>cfg_race\<close>) or one (\<open>cfg_seq\<close>). In \<open>to_race\<close> both workers receive the domain and
  query the empty store before either probes. The other schedules are whole runs, each with
  the state in which \<^verbatim>\<open>processFile\<close> returns.
\<close>

definition json_200 :: exchange where
  "json_200 = Response \<lparr>StatusCode = 200, Header = [''Content-Type'' \<mapsto> [''application/json'']]\<rparr>"

definition not_found_404 :: exchange where
  "not_found_404 = Response \<lparr>StatusCode = 404, Header = Map.empty\<rparr>"

definition cfg_race :: config where
  "cfg_race = \<lparr>domains = [''dup.example'', ''dup.example''], outFile = [], parallel = 2,
     timeoutSecs = 1\<rparr>"

definition cfg_seq :: config where
  "cfg_seq = \<lparr>domains = [''dup.example'', ''dup.example''], outFile = [], parallel = 1,
     timeoutSecs = 1\<rparr>"

definition cfg_good :: config where
  "cfg_good = \<lparr>domains = [''good.example''], outFile = ''found.txt'', parallel = 1,
     timeoutSecs = 1\<rparr>"

definition to_race :: "event list" where
  "to_race = [Enqueue, Enqueue, CloseQueue, Spawn, Spawn, GoSupervisor, Recv 0, Recv 1,
     Lookup 0 None, Lookup 1 None]"

definition race_end :: "event list" where
  "race_end = [Send 0, Send 1, Recv 0, Recv 1, SupClose, RepRecv, RepPrint, RepRecv, RepPrint,
     RepRecv]"

definition race_timeout :: "event list" where
  "race_timeout = to_race @
     [Probe 0 json_200, Upsert 0 None 1700000000, Probe 1 (DoError True)] @ race_end"

definition race_overwrite :: "event list" where
  "race_overwrite = to_race @
     [Probe 0 json_200, Upsert 0 None 1700000000, Probe 1 not_found_404,
      Upsert 1 None 1700000001] @ race_end"

definition race_both :: "event list" where
  "race_both = to_race @
     [Probe 0 json_200, Probe 1 not_found_404, Upsert 1 None 1700000000,
      Upsert 0 None 1700000001] @ race_end"

definition seq_dup :: "event list" where
  "seq_dup = [Enqueue, Enqueue, CloseQueue, Spawn, GoSupervisor, Recv 0, Lookup 0 None,
     Probe 0 not_found_404, Upsert 0 None 1700000000, Send 0, Recv 0, Lookup 0 None,
     PrintKnown 0, Recv 0, SupClose, RepRecv, RepPrint, RepRecv]"

definition locked_rerun :: "event list" where
  "locked_rerun = to_lookup @
     [Lookup 0 (Some ''database is locked''), Probe 0 (DoError False),
      Upsert 0 None 1700000060, Send 0, Recv 0, SupClose, RepRecv, RepPrint, RepRecv]"

definition known_rerun :: "event list" where
  "known_rerun = to_lookup @ [Lookup 0 None, PrintKnown 0, Recv 0, SupClose, RepRecv]"

definition timeout_one :: "event list" where
  "timeout_one = to_probe @
     [Probe 0 (DoError True), Send 0, Recv 0, SupClose, RepRecv, RepPrint, RepRecv]"

definition found_one :: "event list" where
  "found_one = to_probe @
     [Probe 0 json_200, Upsert 0 None 1700000000, Append 0 AppendOK, Send 0, Recv 0, SupClose,
      RepRecv, RepPrint, RepRecv]"

definition done_timeout :: state where
  "done_timeout = \<lparr>main = MDone, sup = SDone, workers = [WDone], wg = 0,
      domainChan = [], domainChan_closed = True, resultChan = [], resultChan_closed = True,
      db = [], outfile = None,
      stdout = [(MainT, ''bad.example: request timed out (skipped) '' @
        [CHR 0xE2, CHR 0x8F, CHR 0xB0, CHR 0x0A])],
      logs = [''Timeout testing bad.example''],
      net = [''https://bad.example/.well-known/openid-configuration''],
      probed = [\<lparr>domain = ''bad.example'', hasOIDC = False, oidcURL = [], timedOut = True\<rparr>],
      sent = [\<lparr>domain = ''bad.example'', hasOIDC = False, oidcURL = [], timedOut = True\<rparr>],
      persisted = []\<rparr>"

definition dup_found :: domainResult where
  "dup_found = \<lparr>domain = ''dup.example'', hasOIDC = True,
     oidcURL = ''https://dup.example/.well-known/openid-configuration'', timedOut = False\<rparr>"

definition dup_not_found :: domainResult where
  "dup_not_found = \<lparr>domain = ''dup.example'', hasOIDC = False, oidcURL = [], timedOut = False\<rparr>"

definition done_both :: state where
  "done_both = \<lparr>main = MDone, sup = SDone, workers = [WDone, WDone], wg = 0,
      domainChan = [], domainChan_closed = True, resultChan = [], resultChan_closed = True,
      db = [\<lparr>name = ''dup.example'', has_oidc = True, tested_at = 1700000001\<rparr>],
      outfile = None,
      stdout = [(MainT, ''dup.example: OIDC endpoint found '' @
          [CHR 0xE2, CHR 0x9C, CHR 0x85, CHR 0x0A]),
        (MainT, ''dup.example: no OIDC endpoint '' @ [CHR 0xE2, CHR 0x9D, CHR 0x8C, CHR 0x0A])],
      logs = [],
      net = [''https://dup.example/.well-known/openid-configuration'',
             ''https://dup.example/.well-known/openid-configuration''],
      probed = [dup_found, dup_not_found], sent = [dup_found, dup_not_found],
      persisted = [dup_not_found, dup_found]\<rparr>"

definition done_known :: state where
  "done_known = \<lparr>main = MDone, sup = SDone, workers = [WDone], wg = 0,
      domainChan = [], domainChan_closed = True, resultChan = [], resultChan_closed = True,
      db = tbl_known, outfile = None,
      stdout = [(WorkerT 0, ''known.example: already known (has_oidc=true)'' @ [CHR 0x0A])],
      logs = [], net = [], probed = [], sent = [], persisted = []\<rparr>"

definition good_found :: domainResult where
  "good_found = \<lparr>domain = ''good.example'', hasOIDC = True,
     oidcURL = ''https://good.example/.well-known/openid-configuration'', timedOut = False\<rparr>"

definition done_found :: state where
  "done_found = \<lparr>main = MDone, sup = SDone, workers = [WDone], wg = 0,
      domainChan = [], domainChan_closed = True, resultChan = [], resultChan_closed = True,
      db = [\<lparr>name = ''good.example'', has_oidc = True, tested_at = 1700000000\<rparr>],
      outfile = Some (''https://good.example/.well-known/openid-configuration'' @ [CHR 0x0A]),
      stdout = [(MainT, ''good.example: OIDC endpoint found '' @
        [CHR 0xE2, CHR 0x9C, CHR 0x85, CHR 0x0A])],
      logs = [],
      net = [''https://good.example/.well-known/openid-configuration''],
      probed = [good_found], sent = [good_found], persisted = [good_found]\<rparr>"

text \<open>
  The state in which the first example returns when the upsert succeeds, and an example
  with two domains and one worker: the upsert of the first domain fails in \<open>at_upsert_two\<close>,
  and \<open>rest_two\<close> is the rest of the run, in which the second domain is received, probed,
  stored and reported.
\<close>

definition done_stored :: state where
  "done_stored = done_one\<lparr>
     db := [\<lparr>name = ''bad.example'', has_oidc = False, tested_at = 1700000000\<rparr>],
     logs := [],
     persisted := [\<lparr>domain = ''bad.example'', hasOIDC = False, oidcURL = [], timedOut = False\<rparr>]\<rparr>"

definition cfg_two :: config where
  "cfg_two = \<lparr>domains = [''bad.example'', ''good.example''], outFile = [], parallel = 1,
     timeoutSecs = 30\<rparr>"

definition bad_not_found :: domainResult where
  "bad_not_found = \<lparr>domain = ''bad.example'', hasOIDC = False, oidcURL = [], timedOut = False\<rparr>"

definition to_upsert_two :: "event list" where
  "to_upsert_two = [Enqueue, Enqueue, CloseQueue, Spawn, GoSupervisor, Recv 0, Lookup 0 None,
     Probe 0 (DoError False)]"

definition at_upsert_two :: state where
  "at_upsert_two = \<lparr>main = MRecv, sup = SWaiting, workers = [WUpsert bad_not_found], wg = 1,
      domainChan = [''good.example''], domainChan_closed = True, resultChan = [],
      resultChan_closed = False, db = [], outfile = None, stdout = [], logs = [],
      net = [''https://bad.example/.well-known/openid-configuration''],
      probed = [bad_not_found], sent = [], persisted = []\<rparr>"

definition rest_two :: "event list" where
  "rest_two = [Send 0, Recv 0, Lookup 0 None, Probe 0 json_200, Upsert 0 None 1700000000, Send 0,
     Recv 0, SupClose, RepRecv, RepPrint, RepRecv, RepPrint, RepRecv]"

definition done_two :: state where
  "done_two = \<lparr>main = MDone, sup = SDone, workers = [WDone], wg = 0,
      domainChan = [], domainChan_closed = True, resultChan = [], resultChan_closed = True,
      db = [\<lparr>name = ''good.example'', has_oidc = True, tested_at = 1700000000\<rparr>],
      outfile = None,
      stdout = [(MainT, ''bad.example: no OIDC endpoint '' @
          [CHR 0xE2, CHR 0x9D, CHR 0x8C, CHR 0x0A]),
        (MainT, ''good.example: OIDC endpoint found '' @
          [CHR 0xE2, CHR 0x9C, CHR 0x85, CHR 0x0A])],
      logs = [''Failed to insert bad.example: disk I/O error''],
      net = [''https://bad.example/.well-known/openid-configuration'',
             ''https://good.example/.well-known/openid-configuration''],
      probed = [bad_not_found, good_found], sent = [bad_not_found, good_found],
      persisted = [good_found]\<rparr>"

section \<open>Facts about the probe and the input list\<close>

lemma Contains_iff_sublist: "Contains s substr \<longleftrightarrow> sublist substr s"
  by (induction s) (auto simp: sublist_Cons_right)

lemma Contains_iff: "Contains s substr \<longleftrightarrow> (\<exists>ps ss. s = ps @ substr @ ss)"
  by (simp add: Contains_iff_sublist sublist_def)

text \<open>Reading the list keeps every line that is not blank, duplicates included.\<close>

lemma read_domains_length:
  "length (read_domains TrimSpace pfx lines) = length (filter (\<lambda>l. TrimSpace l \<noteq> []) lines)"
  by (simp add: read_domains_def filter_map comp_def)

section \<open>Facts about the store\<close>

lemma find_append_cases:
  "find P (xs @ ys) = (case find P xs of None \<Rightarrow> find P ys | Some x \<Rightarrow> Some x)"
  by (induction xs) auto

lemma find_name_None: "find (\<lambda>r. name r = d) tbl = None \<longleftrightarrow> d \<notin> set (map name tbl)"
  by (induction tbl) auto

lemma find_map_overwrite:
  "find (\<lambda>r. name r = d') (map (\<lambda>r. if name r = d then r\<lparr>has_oidc := v, tested_at := now\<rparr> else r) tbl) =
     (if d' = d
      then map_option (\<lambda>r. r\<lparr>has_oidc := v, tested_at := now\<rparr>) (find (\<lambda>r. name r = d) tbl)
      else find (\<lambda>r. name r = d') tbl)"
  by (induction tbl) auto

lemma lookup_upsert:
  "lookup (upsert d v now tbl) d' = (if d' = d then Some v else lookup tbl d')"
proof (cases "d \<in> set (map name tbl)")
  case True
  then obtain r where "find (\<lambda>r. name r = d) tbl = Some r"
    using find_name_None [of d tbl] by fastforce
  with True show ?thesis
    by (simp add: lookup_def upsert_def find_map_overwrite)
next
  case False
  then have "find (\<lambda>r. name r = d) tbl = None"
    by (simp add: find_name_None)
  with False show ?thesis
    by (simp add: lookup_def upsert_def find_append_cases split: option.splits)
qed

lemma lookup_None_iff: "lookup tbl d = None \<longleftrightarrow> d \<notin> set (map name tbl)"
  by (simp add: lookup_def find_name_None)

lemma map_name_overwrite:
  "map name (map (\<lambda>r. if name r = d then r\<lparr>has_oidc := v, tested_at := now\<rparr> else r) tbl) = map name tbl"
  by (induction tbl) auto

lemma map_name_upsert:
  "map name (upsert d v now tbl) =
     (if d \<in> set (map name tbl) then map name tbl else map name tbl @ [d])"
  by (simp add: upsert_def map_name_overwrite del: map_map)

lemma distinct_upsert:
  "distinct (map name tbl) \<Longrightarrow> distinct (map name (upsert d v now tbl))"
  by (simp add: map_name_upsert)

lemma rows_of_absent: "d \<notin> set (map name tbl) \<Longrightarrow> rows_of tbl d = []"
  by (induction tbl) (auto simp: rows_of_def)

lemma rows_of_distinct:
  "distinct (map name tbl) \<Longrightarrow> length (rows_of tbl d) \<le> 1"
proof (induction tbl)
  case Nil
  show ?case by (simp add: rows_of_def)
next
  case (Cons r tbl)
  show ?case
  proof (cases "name r = d")
    case True
    with Cons.prems have "rows_of tbl d = []"
      by (intro rows_of_absent) auto
    with True show ?thesis by (simp add: rows_of_def)
  next
    case False
    with Cons show ?thesis by (simp add: rows_of_def)
  qed
qed

lemma rows_of_lookup:
  "distinct (map name tbl) \<Longrightarrow> lookup tbl d = Some v \<Longrightarrow>
     map (\<lambda>r. (name r, has_oidc r)) (rows_of tbl d) = [(d, v)]"
proof (induction tbl)
  case Nil
  then show ?case by (simp add: lookup_def)
next
  case (Cons r tbl)
  show ?case
  proof (cases "name r = d")
    case True
    with Cons.prems have "rows_of tbl d = []"
      by (intro rows_of_absent) auto
    with True Cons.prems show ?thesis by (simp add: rows_of_def lookup_def)
  next
    case False
    with Cons show ?thesis by (simp add: rows_of_def lookup_def)
  qed
qed

lemma QueryRow_no_fault:
  "QueryRow_has_oidc tbl d None = (case lookup tbl d of None \<Rightarrow> Inl ErrNoRows | Some v \<Rightarrow> Inr v)"
  by (simp add: QueryRow_has_oidc_def lookup_def split: option.splits)

lemma QueryRow_fault: "QueryRow_has_oidc tbl d (Some e) = Inl (QueryError e)"
  by (simp add: QueryRow_has_oidc_def)

section \<open>The steps, case by case\<close>

lemma step_cases [consumes 1, case_names Enqueue CloseQueue Spawn GoSupervisor SupClose
    RepRecvItem RepRecvClosed RepPrint RecvItem RecvClosed LookupKnown LookupUnknown
    PrintKnown Probe UpsertOK UpsertFail Append Send]:
  assumes "step cfg e s = Some s'"
  obtains
    (Enqueue) d ds where "e = Enqueue" "main s = MPopulate (d # ds)"
      "length (domainChan s) < cap cfg"
      "s' = s\<lparr>domainChan := domainChan s @ [d], main := MPopulate ds\<rparr>"
  | (CloseQueue) "e = CloseQueue" "main s = MPopulate []"
      "s' = s\<lparr>domainChan_closed := True, main := MSpawn 0\<rparr>"
  | (Spawn) k where "e = Spawn" "main s = MSpawn k" "k < parallel cfg"
      "s' = s\<lparr>wg := wg s + 1, workers := workers s @ [WIdle], main := MSpawn (k + 1)\<rparr>"
  | (GoSupervisor) k where "e = GoSupervisor" "main s = MSpawn k" "\<not> k < parallel cfg"
      "s' = s\<lparr>sup := SWaiting, main := MRecv\<rparr>"
  | (SupClose) "e = SupClose" "sup s = SWaiting" "wg s = 0"
      "s' = s\<lparr>resultChan_closed := True, sup := SDone\<rparr>"
  | (RepRecvItem) r rs where "e = RepRecv" "main s = MRecv" "resultChan s = r # rs"
      "s' = s\<lparr>resultChan := rs, main := MPrint r\<rparr>"
  | (RepRecvClosed) "e = RepRecv" "main s = MRecv" "resultChan s = []" "resultChan_closed s"
      "s' = s\<lparr>main := MDone\<rparr>"
  | (RepPrint) r where "e = RepPrint" "main s = MPrint r"
      "s' = s\<lparr>stdout := stdout s @ [(MainT, report_line r)], main := MRecv\<rparr>"
  | (RecvItem) i d ds where "e = Recv i" "i < length (workers s)" "workers s ! i = WIdle"
      "domainChan s = d # ds"
      "s' = set_worker i (WLookup d) (s\<lparr>domainChan := ds\<rparr>)"
  | (RecvClosed) i where "e = Recv i" "i < length (workers s)" "workers s ! i = WIdle"
      "domainChan s = []" "domainChan_closed s" "0 < wg s"
      "s' = set_worker i WDone (s\<lparr>wg := wg s - 1\<rparr>)"
  | (LookupKnown) i fault d ex where "e = Lookup i fault" "i < length (workers s)"
      "workers s ! i = WLookup d" "QueryRow_has_oidc (db s) d fault = Inr ex"
      "s' = set_worker i (WKnown d ex) s"
  | (LookupUnknown) i fault d err where "e = Lookup i fault" "i < length (workers s)"
      "workers s ! i = WLookup d" "QueryRow_has_oidc (db s) d fault = Inl err"
      "s' = set_worker i (WProbe d) s"
  | (PrintKnown) i d ex where "e = PrintKnown i" "i < length (workers s)"
      "workers s ! i = WKnown d ex"
      "s' = set_worker i WIdle (s\<lparr>stdout := stdout s @ [(WorkerT i, known_line d ex)]\<rparr>)"
  | (Probe) i x d r where "e = Probe i x" "i < length (workers s)" "workers s ! i = WProbe d"
      "r = probe_result cfg d x"
      "s' = set_worker i (if \<not> timedOut r then WUpsert r else WSend r)
         (s\<lparr>net := net s @ testOIDCWithTimeout_requests d x,
            logs := logs s @ testOIDCWithTimeout_log d x,
            probed := probed s @ [r]\<rparr>)"
  | (UpsertOK) i now r where "e = Upsert i None now" "i < length (workers s)"
      "workers s ! i = WUpsert r"
      "s' = set_worker i (if hasOIDC r \<and> outFile cfg \<noteq> [] then WAppend r else WSend r)
         (s\<lparr>db := upsert (domain r) (hasOIDC r) now (db s), persisted := persisted s @ [r]\<rparr>)"
  | (UpsertFail) i err now r where "e = Upsert i (Some err) now" "i < length (workers s)"
      "workers s ! i = WUpsert r"
      "s' = set_worker i (if hasOIDC r \<and> outFile cfg \<noteq> [] then WAppend r else WSend r)
         (s\<lparr>logs := logs s @ [''Failed to insert '' @ domain r @ '': '' @ err]\<rparr>)"
  | (Append) i a r f l where "e = Append i a" "i < length (workers s)"
      "workers s ! i = WAppend r" "appendToFile (outFile cfg) (oidcURL r) a (outfile s) = (f, l)"
      "s' = set_worker i (WSend r) (s\<lparr>outfile := f, logs := logs s @ l\<rparr>)"
  | (Send) i r where "e = Send i" "i < length (workers s)" "workers s ! i = WSend r"
      "length (resultChan s) < cap cfg" "\<not> resultChan_closed s"
      "s' = set_worker i WIdle (s\<lparr>resultChan := resultChan s @ [r], sent := sent s @ [r]\<rparr>)"
proof (cases e)
  case Enqueue
  with assms show ?thesis
    apply (simp add: step_def split: mstate.splits list.splits if_splits)
    apply (auto intro: that(1))[1]
    done
next
  case CloseQueue
  with assms show ?thesis
    apply (simp add: step_def split: mstate.splits list.splits if_splits)
    apply (auto intro: that(2))[1]
    done
next
  case Spawn
  with assms show ?thesis
    apply (simp add: step_def split: mstate.splits if_splits)
    apply (auto intro: that(3))[1]
    done
next
  case GoSupervisor
  with assms show ?thesis
    apply (simp add: step_def split: mstate.splits if_splits)
    apply (auto intro: that(4))[1]
    done
next
  case SupClose
  with assms show ?thesis
    apply (simp add: step_def split: sstate.splits if_splits)
    apply (auto intro: that(5))[1]
    done
next
  case RepRecv
  with assms show ?thesis
    apply (simp add: step_def split: mstate.splits list.splits if_splits)
     apply (auto intro: that(7))[1]
    apply (auto intro: that(6))[1]
    done
next
  case RepPrint
  with assms show ?thesis
    apply (simp add: step_def split: mstate.splits)
    apply (auto intro: that(8))[1]
    done
next
  case (Recv i)
  with assms show ?thesis
    apply (simp add: step_def worker_step_def split: wstate.splits list.splits if_splits)
     apply (auto intro: that(10))[1]
    apply (auto intro: that(9))[1]
    done
next
  case (Lookup i fault)
  with assms show ?thesis
    apply (simp add: step_def worker_step_def split: wstate.splits sum.splits if_splits)
     apply (auto intro: that(12))[1]
    apply (auto intro: that(11))[1]
    done
next
  case (PrintKnown i)
  with assms show ?thesis
    apply (simp add: step_def worker_step_def split: wstate.splits if_splits)
    apply (auto intro: that(13))[1]
    done
next
  case (Probe i x)
  from assms Probe have len: "i < length (workers s)"
    by (simp add: step_def split: if_splits)
  from assms Probe len show ?thesis
    apply (simp add: step_def worker_step_def Let_def split: wstate.splits)
    apply (auto intro: that(14))[1]
    done
next
  case (Upsert i fault now)
  from assms Upsert have len: "i < length (workers s)"
    by (simp add: step_def split: if_splits)
  from assms Upsert len show ?thesis
    apply (simp add: step_def worker_step_def Let_def split: wstate.splits option.splits)
     apply (auto intro: that(15))[1]
    apply (auto intro: that(16))[1]
    done
next
  case (Append i a)
  with assms show ?thesis
    apply (simp add: step_def worker_step_def split: wstate.splits prod.splits if_splits)
    apply (auto intro: that(17))[1]
    done
next
  case (Send i)
  with assms show ?thesis
    apply (simp add: step_def worker_step_def split: wstate.splits if_splits)
    apply (auto intro: that(18))[1]
    done
qed

section \<open>Single steps\<close>

lemma run_append:
  "run cfg (es @ es') s = (case run cfg es s of None \<Rightarrow> None | Some s' \<Rightarrow> run cfg es' s')"
  by (induction es arbitrary: s) (auto split: option.splits)

lemma probe_result_simps:
  "probe_result cfg d NewRequestError = \<lparr>domain = d, hasOIDC = False, oidcURL = [], timedOut = False\<rparr>"
  "probe_result cfg d (DoError b) = \<lparr>domain = d, hasOIDC = False, oidcURL = [], timedOut = b\<rparr>"
  "probe_result cfg d (Response resp) =
     (if StatusCode resp = 200 \<and> Contains (Header_Get (Header resp) ''Content-Type'') ''application/json''
      then \<lparr>domain = d, hasOIDC = True, oidcURL = probe_url d, timedOut = False\<rparr>
      else \<lparr>domain = d, hasOIDC = False, oidcURL = [], timedOut = False\<rparr>)"
  by (simp_all add: probe_result_def Let_def)

lemma step_Probe:
  "i < length (workers s) \<Longrightarrow> workers s ! i = WProbe d \<Longrightarrow>
   step cfg (Probe i x) s =
     Some (set_worker i
       (if \<not> timedOut (probe_result cfg d x) then WUpsert (probe_result cfg d x)
        else WSend (probe_result cfg d x))
       (s\<lparr>net := net s @ testOIDCWithTimeout_requests d x,
          logs := logs s @ testOIDCWithTimeout_log d x,
          probed := probed s @ [probe_result cfg d x]\<rparr>))"
  by (simp add: step_def worker_step_def Let_def)

lemma step_Upsert:
  "i < length (workers s) \<Longrightarrow> workers s ! i = WUpsert r \<Longrightarrow>
   step cfg (Upsert i fault now) s =
     Some (set_worker i (if hasOIDC r \<and> outFile cfg \<noteq> [] then WAppend r else WSend r)
       (case fault of
          None \<Rightarrow> s\<lparr>db := upsert (domain r) (hasOIDC r) now (db s), persisted := persisted s @ [r]\<rparr>
        | Some err \<Rightarrow> s\<lparr>logs := logs s @ [''Failed to insert '' @ domain r @ '': '' @ err]\<rparr>))"
  by (simp add: step_def worker_step_def Let_def split: option.splits)

lemma step_Lookup:
  "i < length (workers s) \<Longrightarrow> workers s ! i = WLookup d \<Longrightarrow>
   step cfg (Lookup i fault) s =
     Some (set_worker i
       (case QueryRow_has_oidc (db s) d fault of Inr ex \<Rightarrow> WKnown d ex | Inl err \<Rightarrow> WProbe d) s)"
  by (simp add: step_def worker_step_def split: sum.splits)

lemma step_PrintKnown:
  "i < length (workers s) \<Longrightarrow> workers s ! i = WKnown d ex \<Longrightarrow>
   step cfg (PrintKnown i) s =
     Some (set_worker i WIdle (s\<lparr>stdout := stdout s @ [(WorkerT i, known_line d ex)]\<rparr>))"
  by (simp add: step_def worker_step_def)

lemma step_Send:
  "i < length (workers s) \<Longrightarrow> workers s ! i = WSend r \<Longrightarrow>
   step cfg (Send i) s =
     (if length (resultChan s) < cap cfg \<and> \<not> resultChan_closed s
      then Some (set_worker i WIdle (s\<lparr>resultChan := resultChan s @ [r], sent := sent s @ [r]\<rparr>))
      else None)"
  by (simp add: step_def worker_step_def)

lemma step_Append:
  "i < length (workers s) \<Longrightarrow> workers s ! i = WAppend r \<Longrightarrow>
   step cfg (Append i a) s =
     Some (set_worker i (WSend r)
       (s\<lparr>outfile := fst (appendToFile (outFile cfg) (oidcURL r) a (outfile s)),
          logs := logs s @ snd (appendToFile (outFile cfg) (oidcURL r) a (outfile s))\<rparr>))"
  by (simp add: step_def worker_step_def split: prod.splits)

lemma after_timeout_only_send:
  assumes "i < length (workers s)" and "workers s ! i = WSend r"
    and "worker_of e = Some i" and "step cfg e s = Some s'"
  shows "e = Send i \<and> workers s' ! i = WIdle \<and> db s' = db s \<and> outfile s' = outfile s"
  using assms
  by (cases e) (auto simp: step_def worker_step_def set_worker_def split: if_splits)

section \<open>The invariants hold in every step\<close>

lemma length_filter_update:
  "i < length ws \<Longrightarrow>
   length (filter P (ws[i := w])) + (if P (ws ! i) then 1 else 0) =
   length (filter P ws) + (if P w then 1 else 0)"
proof (induction ws arbitrary: i)
  case Nil
  then show ?case by simp
next
  case (Cons a ws)
  show ?case
  proof (cases i)
    case 0
    then show ?thesis by simp
  next
    case (Suc j)
    with Cons.prems have "j < length ws" by simp
    from Cons.IH [OF this] Suc show ?thesis by simp
  qed
qed

lemma inv_phase_step:
  assumes "step cfg e s = Some s'" and "inv_phase cfg s"
  shows "inv_phase cfg s'"
  using assms
  by (cases rule: step_cases) (auto simp: inv_phase_def set_worker_def split: mstate.splits)

lemma not_done_update:
  "i < length ws \<Longrightarrow>
   int (length (filter P (ws[i := w]))) =
   int (length (filter P ws)) - (if P (ws ! i) then 1 else 0) + (if P w then 1 else 0)"
  using length_filter_update [of i ws P w] by (simp split: if_splits)

lemma inv_wg_step:
  assumes "step cfg e s = Some s'" and "inv_wg s"
  shows "inv_wg s'"
  using assms
  by (cases rule: step_cases) (auto simp: inv_wg_def set_worker_def not_done_update)

lemma inv_close_step:
  assumes "step cfg e s = Some s'" and "inv_close s" and "inv_phase cfg s"
  shows "inv_close s'"
  using assms
  by (cases rule: step_cases) (auto simp: inv_close_def inv_phase_def set_worker_def)

lemma inv_queue_step:
  assumes "step cfg e s = Some s'" and "inv_queue cfg s"
  shows "inv_queue cfg s'"
  using assms
  by (cases rule: step_cases)
    (auto simp: inv_queue_def set_worker_def suffix_ConsD dest: suffix_ConsD)

lemma inv_cap_int:
  "inv_cap cfg s \<longleftrightarrow>
     int (length (domainChan s)) + int (length (unsent (main s))) +
       int (length (filter in_flight (workers s))) + int (length (sent s)) \<le> int (cap cfg) \<and>
     length (resultChan s) \<le> length (sent s)"
  unfolding inv_cap_def by linarith

lemma inv_cap_step:
  assumes "step cfg e s = Some s'" and "inv_cap cfg s"
  shows "inv_cap cfg s'"
  using assms
  by (cases rule: step_cases) (auto simp: inv_cap_int set_worker_def not_done_update)

lemma inv_report_step:
  assumes "step cfg e s = Some s'" and "inv_report s"
  shows "inv_report s'"
  using assms
  by (cases rule: step_cases) (auto simp: inv_report_def reporter_lines_def set_worker_def)

lemma worker_budget_update:
  "i < length ws \<Longrightarrow>
   int (sum_list (map f (ws[i := w]))) =
   int (sum_list (map f ws)) - int (f (ws ! i)) + int (f w)"
proof (induction ws arbitrary: i)
  case Nil
  then show ?case by simp
next
  case (Cons a ws)
  show ?case
  proof (cases i)
    case 0
    then show ?thesis by simp
  next
    case (Suc j)
    with Cons.prems have "j < length ws" by simp
    from Cons.IH [OF this] Suc show ?thesis by simp
  qed
qed

lemma budget_step_int:
  assumes "step cfg e s = Some s'"
  shows "int (budget cfg s') < int (budget cfg s)"
  using assms
  by (cases rule: step_cases)
    (auto simp: budget_def set_worker_def worker_budget_update)

lemma budget_step: "step cfg e s = Some s' \<Longrightarrow> budget cfg s' < budget cfg s"
  using budget_step_int by fastforce

lemma budget_run: "run cfg es s = Some s' \<Longrightarrow> length es + budget cfg s' \<le> budget cfg s"
proof (induction es arbitrary: s)
  case Nil
  then show ?case by simp
next
  case (Cons e es)
  then obtain s1 where 1: "step cfg e s = Some s1" and 2: "run cfg es s1 = Some s'"
    by (auto split: option.splits)
  from budget_step [OF 1] Cons.IH [OF 2] show ?case by simp
qed

lemma filter_pos_nth: "i < length ws \<Longrightarrow> P (ws ! i) \<Longrightarrow> 0 < length (filter P ws)"
  by (metis filter_empty_conv length_greater_0_conv nth_mem)

lemma worker_can_step:
  assumes ph: "inv_phase cfg s" and wgi: "inv_wg s" and cl: "inv_close s" and cp: "inv_cap cfg s"
    and i: "i < length (workers s)" and nd: "workers s ! i \<noteq> WDone"
  shows "\<exists>e s'. worker_of e = Some i \<and> step cfg e s = Some s'"
proof -
  have alive: "0 < wg s"
    using wgi filter_pos_nth [of i "workers s" "\<lambda>w. w \<noteq> WDone"] i nd by (simp add: inv_wg_def)
  have closed: "domainChan_closed s"
    using ph i by (auto simp: inv_phase_def split: mstate.splits)
  have open_result: "\<not> resultChan_closed s"
    using cl alive by (auto simp: inv_close_def)
  show ?thesis
  proof (cases "workers s ! i")
    case WIdle
    with i closed alive have "\<exists>s'. step cfg (Recv i) s = Some s'"
      by (simp add: step_def worker_step_def split: list.splits)
    then show ?thesis by (metis worker_of.simps(1))
  next
    case (WLookup d)
    with i have "\<exists>s'. step cfg (Lookup i None) s = Some s'"
      by (simp add: step_Lookup)
    then show ?thesis by (metis worker_of.simps(2))
  next
    case (WKnown d ex)
    with i have "\<exists>s'. step cfg (PrintKnown i) s = Some s'"
      by (simp add: step_PrintKnown)
    then show ?thesis by (metis worker_of.simps(3))
  next
    case (WProbe d)
    with i have "\<exists>s'. step cfg (Probe i NewRequestError) s = Some s'"
      by (simp add: step_Probe)
    then show ?thesis by (metis worker_of.simps(4))
  next
    case (WUpsert r)
    with i have "\<exists>s'. step cfg (Upsert i None 0) s = Some s'"
      by (simp add: step_Upsert)
    then show ?thesis by (metis worker_of.simps(5))
  next
    case (WAppend r)
    with i have "\<exists>s'. step cfg (Append i AppendOK) s = Some s'"
      by (simp add: step_Append)
    then show ?thesis by (metis worker_of.simps(6))
  next
    case (WSend r)
    have "0 < length (filter in_flight (workers s))"
      using filter_pos_nth [of i "workers s" in_flight] i WSend by simp
    with cp have "length (resultChan s) < cap cfg"
      unfolding inv_cap_def by linarith
    with i WSend open_result have "\<exists>s'. step cfg (Send i) s = Some s'"
      by (simp add: step_Send)
    then show ?thesis by (metis worker_of.simps(7))
  next
    case WDone
    with nd show ?thesis by simp
  qed
qed

lemma progress:
  assumes ph: "inv_phase cfg s" and wgi: "inv_wg s" and cl: "inv_close s" and cp: "inv_cap cfg s"
    and nd: "main s \<noteq> MDone"
  shows "\<exists>e s'. step cfg e s = Some s'"
proof (cases "main s")
  case (MPopulate ds)
  show ?thesis
  proof (cases ds)
    case Nil
    with MPopulate have "\<exists>s'. step cfg CloseQueue s = Some s'" by (simp add: step_def)
    then show ?thesis by blast
  next
    case (Cons d ds')
    with MPopulate cp have "length (domainChan s) < cap cfg" by (simp add: inv_cap_def)
    with MPopulate Cons have "\<exists>s'. step cfg Enqueue s = Some s'" by (simp add: step_def)
    then show ?thesis by blast
  qed
next
  case (MSpawn k)
  then have "\<exists>s'. step cfg (if k < parallel cfg then Spawn else GoSupervisor) s = Some s'"
    by (simp add: step_def)
  then show ?thesis by blast
next
  case MRecv
  show ?thesis
  proof (cases "resultChan s \<noteq> [] \<or> resultChan_closed s")
    case True
    with MRecv have "\<exists>s'. step cfg RepRecv s = Some s'"
      by (auto simp: step_def split: list.splits)
    then show ?thesis by blast
  next
    case False
    with MRecv ph cl have waiting: "sup s = SWaiting"
      by (cases "sup s") (auto simp: inv_phase_def inv_close_def)
    show ?thesis
    proof (cases "wg s = 0")
      case True
      with waiting have "\<exists>s'. step cfg SupClose s = Some s'" by (simp add: step_def)
      then show ?thesis by blast
    next
      case False
      with wgi have "filter (\<lambda>w. w \<noteq> WDone) (workers s) \<noteq> []"
        by (auto simp: inv_wg_def)
      then obtain w where "w \<in> set (workers s)" "w \<noteq> WDone"
        by (auto simp: filter_empty_conv)
      then obtain i where "i < length (workers s)" "workers s ! i \<noteq> WDone"
        by (auto simp: in_set_conv_nth)
      from worker_can_step [OF ph wgi cl cp this] show ?thesis by blast
    qed
  qed
next
  case (MPrint r)
  then have "\<exists>s'. step cfg RepPrint s = Some s'" by (simp add: step_def)
  then show ?thesis by blast
next
  case MDone
  with nd show ?thesis by simp
qed

lemma mset_results_update:
  "i < length ws \<Longrightarrow>
   mset (concat (map f (ws[i := w]))) + mset (f (ws ! i)) =
   mset (concat (map f ws)) + mset (f w)"
proof (induction ws arbitrary: i)
  case Nil
  then show ?case by simp
next
  case (Cons a ws)
  show ?case
  proof (cases i)
    case 0
    then show ?thesis by simp
  next
    case (Suc j)
    with Cons.prems have "j < length ws" by simp
    from Cons.IH [OF this] Suc show ?thesis by (simp add: ac_simps)
  qed
qed

lemma in_set_updateD: "x \<in> set (ws[i := w]) \<Longrightarrow> x = w \<or> x \<in> set ws"
  using set_update_subset_insert [of ws i w] by auto

lemma inv_hist_step:
  assumes "step cfg e s = Some s'" and "inv_hist s"
  shows "inv_hist s'"
  using assms
proof (cases rule: step_cases)
  case (RecvItem i d ds)
  with assms(2) mset_results_update [of i "workers s" result_of "WLookup d"] show ?thesis
    by (auto simp: inv_hist_def set_worker_def dest!: in_set_updateD)
next
  case (RecvClosed i)
  with assms(2) mset_results_update [of i "workers s" result_of WDone] show ?thesis
    by (auto simp: inv_hist_def set_worker_def dest!: in_set_updateD)
next
  case (LookupKnown i fault d ex)
  with assms(2) mset_results_update [of i "workers s" result_of "WKnown d ex"] show ?thesis
    by (auto simp: inv_hist_def set_worker_def dest!: in_set_updateD)
next
  case (LookupUnknown i fault d err)
  with assms(2) mset_results_update [of i "workers s" result_of "WProbe d"] show ?thesis
    by (auto simp: inv_hist_def set_worker_def dest!: in_set_updateD)
next
  case (PrintKnown i d ex)
  with assms(2) mset_results_update [of i "workers s" result_of WIdle] show ?thesis
    by (auto simp: inv_hist_def set_worker_def dest!: in_set_updateD)
next
  case (Probe i x d r)
  let ?w = "if \<not> timedOut r then WUpsert r else WSend r"
  have "result_of ?w = [r]" "wstate_ok ?w" by simp_all
  with Probe assms(2) mset_results_update [of i "workers s" result_of ?w] show ?thesis
    by (auto simp: inv_hist_def set_worker_def dest!: in_set_updateD)
next
  case (UpsertOK i now r)
  let ?w = "if hasOIDC r \<and> outFile cfg \<noteq> [] then WAppend r else WSend r"
  from UpsertOK assms(2) nth_mem [of i "workers s"] have ok: "\<not> timedOut r"
    by (fastforce simp: inv_hist_def)
  have "r \<in># mset (concat (map result_of (workers s)))"
    using UpsertOK by (auto intro!: bexI [of _ "WUpsert r"] dest: nth_mem)
  with assms(2) have mem: "r \<in> set (probed s)"
    by (metis inv_hist_def set_mset_mset union_iff)
  have "result_of ?w = [r]" "wstate_ok ?w" using ok by simp_all
  with UpsertOK assms(2) ok mem mset_results_update [of i "workers s" result_of ?w] show ?thesis
    by (auto simp: inv_hist_def set_worker_def dest!: in_set_updateD)
next
  case (UpsertFail i err now r)
  let ?w = "if hasOIDC r \<and> outFile cfg \<noteq> [] then WAppend r else WSend r"
  from UpsertFail assms(2) nth_mem [of i "workers s"] have ok: "\<not> timedOut r"
    by (fastforce simp: inv_hist_def)
  have "result_of ?w = [r]" "wstate_ok ?w" using ok by simp_all
  with UpsertFail assms(2) mset_results_update [of i "workers s" result_of ?w] show ?thesis
    by (auto simp: inv_hist_def set_worker_def dest!: in_set_updateD)
next
  case (Append i a r f l)
  with assms(2) mset_results_update [of i "workers s" result_of "WSend r"] show ?thesis
    by (auto simp: inv_hist_def set_worker_def dest!: in_set_updateD)
next
  case (Send i r)
  with assms(2) mset_results_update [of i "workers s" result_of WIdle] show ?thesis
    by (auto simp: inv_hist_def set_worker_def dest!: in_set_updateD)
qed (simp_all add: inv_hist_def)

lemma last_persisted_snoc:
  "find (\<lambda>r. domain r = d) (rev (xs @ [r])) =
     (if domain r = d then Some r else find (\<lambda>r. domain r = d) (rev xs))"
  by simp

lemma inv_db_step:
  assumes "step cfg e s = Some s'" and "inv_db tbl s"
  shows "inv_db tbl s'"
  using assms
  by (cases rule: step_cases)
    (auto simp: inv_db_def last_persisted_def set_worker_def lookup_upsert distinct_upsert)

lemma inv_drain_step:
  assumes "step cfg e s = Some s'" and "inv_drain s" and "inv_phase cfg s"
  shows "inv_drain s'"
  using assms
  by (cases rule: step_cases)
    (auto simp: inv_drain_def inv_phase_def set_worker_def dest!: in_set_updateD)

lemma inv_init: "inv cfg tbl (init cfg tbl f)"
  by (simp add: inv_def init_def inv_phase_def inv_wg_def inv_close_def inv_queue_def
      inv_cap_def inv_report_def inv_hist_def inv_db_def inv_drain_def cap_def
      reporter_lines_def last_persisted_def)

lemma inv_step:
  assumes "inv cfg tbl s" and st: "step cfg e s = Some s'"
  shows "inv cfg tbl s'"
proof -
  from assms(1) have ph: "inv_phase cfg s" and w: "inv_wg s" and cl: "inv_close s"
    and q: "inv_queue cfg s" and cp: "inv_cap cfg s" and rp: "inv_report s"
    and h: "inv_hist s" and d: "inv_db tbl s" and dr: "inv_drain s"
    by (simp_all add: inv_def)
  show ?thesis
    unfolding inv_def
    using inv_phase_step [OF st ph] inv_wg_step [OF st w] inv_close_step [OF st cl ph]
      inv_queue_step [OF st q] inv_cap_step [OF st cp] inv_report_step [OF st rp]
      inv_hist_step [OF st h] inv_db_step [OF st d] inv_drain_step [OF st dr ph]
    by simp
qed

lemma inv_run: "run cfg es s = Some s' \<Longrightarrow> inv cfg tbl s \<Longrightarrow> inv cfg tbl s'"
proof (induction es arbitrary: s)
  case Nil
  then show ?case by simp
next
  case (Cons e es)
  then obtain s1 where 1: "step cfg e s = Some s1" and 2: "run cfg es s1 = Some s'"
    by (auto split: option.splits)
  from Cons.IH [OF 2 inv_step [OF Cons.prems(2) 1]] show ?case .
qed

lemma inv_reach: "run cfg es (init cfg tbl f) = Some s \<Longrightarrow> inv cfg tbl s"
  using inv_run inv_init by blast

lemma completes:
  "inv cfg tbl s \<Longrightarrow> \<exists>es s'. run cfg es s = Some s' \<and> main s' = MDone"
proof (induction "budget cfg s" arbitrary: s rule: less_induct)
  case less
  show ?case
  proof (cases "main s = MDone")
    case True
    then have "run cfg [] s = Some s \<and> main s = MDone" by simp
    then show ?thesis by blast
  next
    case False
    with less.prems obtain e s1 where 1: "step cfg e s = Some s1"
      using progress [of cfg s] by (auto simp: inv_def)
    from less.hyps [OF budget_step [OF 1] inv_step [OF less.prems 1]]
    obtain es s' where "run cfg es s1 = Some s'" "main s' = MDone" by blast
    with 1 have "run cfg (e # es) s = Some s' \<and> main s' = MDone" by simp
    then show ?thesis by blast
  qed
qed

lemma enabled_at_point:
  assumes I: "inv cfg tbl s" and i: "i < length (workers s)"
    and e: "worker_of e = Some i" and p: "at_point e (workers s ! i)"
  shows "\<exists>s'. step cfg e s = Some s'"
proof -
  from I have ph: "inv_phase cfg s" and wgi: "inv_wg s" and cl: "inv_close s"
    and cp: "inv_cap cfg s"
    by (simp_all add: inv_def)
  from p have nd: "workers s ! i \<noteq> WDone"
    by (auto simp: at_point_def split: event.splits)
  have alive: "0 < wg s"
    using wgi filter_pos_nth [of i "workers s" "\<lambda>w. w \<noteq> WDone"] i nd by (simp add: inv_wg_def)
  have closed: "domainChan_closed s"
    using ph i by (auto simp: inv_phase_def split: mstate.splits)
  have open_result: "\<not> resultChan_closed s"
    using cl alive by (auto simp: inv_close_def)
  show ?thesis
  proof (cases e)
    case (Recv j)
    with e p i closed alive show ?thesis
      by (simp add: at_point_def step_def worker_step_def split: list.splits)
  next
    case (Lookup j fault)
    with e p i show ?thesis
      by (auto simp: at_point_def step_Lookup split: wstate.splits)
  next
    case (PrintKnown j)
    with e p i show ?thesis
      by (auto simp: at_point_def step_PrintKnown split: wstate.splits)
  next
    case (Probe j x)
    with e p i show ?thesis
      by (auto simp: at_point_def step_Probe split: wstate.splits)
  next
    case (Upsert j fault now)
    with e p i show ?thesis
      by (auto simp: at_point_def step_Upsert split: wstate.splits)
  next
    case (Append j a)
    with e p i show ?thesis
      by (auto simp: at_point_def step_Append split: wstate.splits)
  next
    case (Send j)
    with p have "in_flight (workers s ! i)"
      by (auto simp: at_point_def split: wstate.splits)
    then have "0 < length (filter in_flight (workers s))"
      using filter_pos_nth [of i "workers s" in_flight] i by simp
    with cp have "length (resultChan s) < cap cfg"
      unfolding inv_cap_def by linarith
    with Send e p i open_result show ?thesis
      by (auto simp: at_point_def step_Send split: wstate.splits)
  qed (use e in simp_all)
qed

lemma all_done_when_closed:
  assumes "inv cfg tbl s" and "resultChan_closed s"
  shows "length (workers s) = nat (parallel cfg) \<and> (\<forall>w \<in> set (workers s). w = WDone)"
proof -
  from assms have sd: "sup s = SDone" and z: "wg s = 0"
    by (auto simp: inv_def inv_close_def)
  from assms(1) z have "filter (\<lambda>w. w \<noteq> WDone) (workers s) = []"
    by (simp add: inv_def inv_wg_def)
  then have all: "\<forall>w \<in> set (workers s). w = WDone"
    by (auto simp: filter_empty_conv)
  from assms(1) sd have "length (workers s) = nat (parallel cfg)"
    by (auto simp: inv_def inv_phase_def split: mstate.splits)
  with all show ?thesis by simp
qed

lemma finished_facts:
  assumes "inv cfg tbl s" and "main s = MDone"
  shows "resultChan_closed s" and "resultChan s = []"
    and "reporter_lines s = map report_line (sent s)"
    and "mset (sent s) = mset (probed s)"
    and "\<forall>w \<in> set (workers s). w = WDone"
proof -
  from assms show c: "resultChan_closed s" and e: "resultChan s = []"
    by (auto simp: inv_def inv_close_def)
  from assms e show "reporter_lines s = map report_line (sent s)"
    by (simp add: inv_def inv_report_def)
  from all_done_when_closed [OF assms(1) c] show all: "\<forall>w \<in> set (workers s). w = WDone"
    by simp
  then have "concat (map result_of (workers s)) = []"
    by auto
  with assms(1) show "mset (sent s) = mset (probed s)"
    by (simp add: inv_def inv_hist_def)
qed

lemma probed_step: "step cfg e s = Some s' \<Longrightarrow> set (probed s) \<subseteq> set (probed s')"
  by (cases rule: step_cases) (auto simp: set_worker_def)

lemma probed_run: "run cfg es s = Some s' \<Longrightarrow> set (probed s) \<subseteq> set (probed s')"
proof (induction es arbitrary: s)
  case Nil
  then show ?case by simp
next
  case (Cons e es)
  then obtain s1 where 1: "step cfg e s = Some s1" and 2: "run cfg es s1 = Some s'"
    by (auto split: option.splits)
  from probed_step [OF 1] Cons.IH [OF 2] show ?case by blast
qed

section \<open>Facts about complete runs\<close>

lemma held_in_probed:
  assumes "inv_hist s" and "i < length (workers s)" and "r \<in> set (result_of (workers s ! i))"
  shows "r \<in> set (probed s)"
proof -
  from assms(2,3) have "r \<in> set (concat (map result_of (workers s)))"
    by (auto intro!: bexI [of _ "workers s ! i"])
  then have "r \<in># mset (sent s) + mset (concat (map result_of (workers s)))"
    by simp
  with assms(1) show ?thesis
    by (metis inv_hist_def set_mset_mset)
qed

lemma init_budget:
  "budget cfg (init cfg tbl f) = 9 * length (domains cfg) + 2 * nat (parallel cfg) + 5"
  by (simp add: budget_def init_def)

section \<open>Runs over a store that knows every domain\<close>

lemma inv_known_step:
  assumes "step cfg e s = Some s'" and "inv_known cfg tbl f s" and "\<not> lookup_fault e"
    and known: "\<forall>d \<in> set (domains cfg). lookup tbl d \<noteq> None"
  shows "inv_known cfg tbl f s'"
  using assms(1)
proof (cases rule: step_cases)
  case (LookupUnknown i fault d err)
  with assms(3) have "fault = None" by (cases fault) simp_all
  with LookupUnknown assms(2) have "lookup tbl d = None"
    by (simp add: inv_known_def QueryRow_no_fault split: option.splits)
  moreover from LookupUnknown assms(2) nth_mem [of i "workers s"] have "d \<in> set (domains cfg)"
    by (fastforce simp: inv_known_def)
  ultimately show ?thesis using known by blast
next
  case (Probe i x d r)
  with assms(2) nth_mem [of i "workers s"] show ?thesis by (fastforce simp: inv_known_def)
next
  case (UpsertOK i now r)
  with assms(2) nth_mem [of i "workers s"] show ?thesis by (fastforce simp: inv_known_def)
next
  case (UpsertFail i err now r)
  with assms(2) nth_mem [of i "workers s"] show ?thesis by (fastforce simp: inv_known_def)
next
  case (Append i a r f l)
  with assms(2) nth_mem [of i "workers s"] show ?thesis by (fastforce simp: inv_known_def)
next
  case (Send i r)
  with assms(2) nth_mem [of i "workers s"] show ?thesis by (fastforce simp: inv_known_def)
qed (use assms(2) in \<open>auto simp: inv_known_def set_worker_def dest!: in_set_updateD\<close>)

lemma inv_known_run:
  assumes "run cfg es s = Some s'" and "inv_known cfg tbl f s"
    and "\<forall>e \<in> set es. \<not> lookup_fault e"
    and known: "\<forall>d \<in> set (domains cfg). lookup tbl d \<noteq> None"
  shows "inv_known cfg tbl f s'"
  using assms(1,2,3)
proof (induction es arbitrary: s)
  case Nil
  then show ?case by simp
next
  case (Cons e es)
  then obtain s1 where 1: "step cfg e s = Some s1" and 2: "run cfg es s1 = Some s'"
    by (auto split: option.splits)
  from Cons.prems(3) have ne: "\<not> lookup_fault e" and rest: "\<forall>e \<in> set es. \<not> lookup_fault e"
    by simp_all
  from Cons.IH [OF 2 inv_known_step [OF 1 Cons.prems(2) ne known] rest] show ?case .
qed

lemma inv_known_init: "inv_known cfg tbl f (init cfg tbl f)"
  by (simp add: inv_known_def init_def)

section \<open>More facts used below\<close>

lemma find_rev_last:
  "find P (rev xs) = Some r \<Longrightarrow> filter P xs \<noteq> [] \<and> r = last (filter P xs)"
  by (induction xs rule: rev_induct) (auto split: if_splits)

lemma find_rev_None: "find P (rev xs) = None \<longleftrightarrow> filter P xs = []"
  by (auto simp: find_None_iff filter_empty_conv)

lemma find_SomeD: "find P xs = Some x \<Longrightarrow> x \<in> set xs \<and> P x"
  by (induction xs) (auto split: if_splits)

section \<open>Every input domain is handled and every probe is reported\<close>

text \<open>
  \<open>inv_handled\<close> holds in every state of a run. When the reporting loop has ended, all
  workers have returned and both channels are empty, so that the input list is made of the
  domains reported as already known and the domains of the results pushed; and the result
  of a probe is, in every completion of the run, among the results pushed and its line
  among the lines printed by the reporting loop.
\<close>

lemma probe_result_domain: "domain (probe_result cfg d x) = d"
  by (cases x) (simp_all add: probe_result_simps)

lemma inv_handled_step:
  assumes "step cfg e s = Some s'" and "inv_handled cfg s"
  shows "inv_handled cfg s'"
proof -
  from assms(2) obtain kn where
    l: "worker_lines s = map (\<lambda>p. known_line (fst p) (snd p)) kn" and
    m: "mset (domains cfg) =
          mset (map fst kn) + mset (map domain (probed s)) +
          mset (concat (map holding (workers s))) + mset (domainChan s) +
          mset (unsent (main s))"
    by (auto simp: inv_handled_def)
  from assms(1) show ?thesis
  proof (cases rule: step_cases)
    case (RecvItem i d ds)
    with l m mset_results_update [of i "workers s" holding "WLookup d"] show ?thesis
      by (auto simp: inv_handled_def worker_lines_def set_worker_def intro!: exI [of _ kn])
  next
    case (RecvClosed i)
    with l m mset_results_update [of i "workers s" holding WDone] show ?thesis
      by (auto simp: inv_handled_def worker_lines_def set_worker_def intro!: exI [of _ kn])
  next
    case (LookupKnown i fault d ex)
    with l m mset_results_update [of i "workers s" holding "WKnown d ex"] show ?thesis
      by (auto simp: inv_handled_def worker_lines_def set_worker_def intro!: exI [of _ kn])
  next
    case (LookupUnknown i fault d err)
    with l m mset_results_update [of i "workers s" holding "WProbe d"] show ?thesis
      by (auto simp: inv_handled_def worker_lines_def set_worker_def intro!: exI [of _ kn])
  next
    case (PrintKnown i d ex)
    with l m mset_results_update [of i "workers s" holding WIdle] show ?thesis
      by (auto simp: inv_handled_def worker_lines_def set_worker_def
          intro!: exI [of _ "kn @ [(d, ex)]"])
  next
    case (Probe i x d r)
    let ?w = "if \<not> timedOut r then WUpsert r else WSend r"
    have "holding ?w = []" by simp
    with Probe l m mset_results_update [of i "workers s" holding ?w] show ?thesis
      by (auto simp: inv_handled_def worker_lines_def set_worker_def probe_result_domain
          intro!: exI [of _ kn])
  next
    case (UpsertOK i now r)
    let ?w = "if hasOIDC r \<and> outFile cfg \<noteq> [] then WAppend r else WSend r"
    have "holding ?w = []" by simp
    with UpsertOK l m mset_results_update [of i "workers s" holding ?w] show ?thesis
      by (auto simp: inv_handled_def worker_lines_def set_worker_def intro!: exI [of _ kn])
  next
    case (UpsertFail i err now r)
    let ?w = "if hasOIDC r \<and> outFile cfg \<noteq> [] then WAppend r else WSend r"
    have "holding ?w = []" by simp
    with UpsertFail l m mset_results_update [of i "workers s" holding ?w] show ?thesis
      by (auto simp: inv_handled_def worker_lines_def set_worker_def intro!: exI [of _ kn])
  next
    case (Append i a r f l')
    with l m mset_results_update [of i "workers s" holding "WSend r"] show ?thesis
      by (auto simp: inv_handled_def worker_lines_def set_worker_def intro!: exI [of _ kn])
  next
    case (Send i r)
    with l m mset_results_update [of i "workers s" holding WIdle] show ?thesis
      by (auto simp: inv_handled_def worker_lines_def set_worker_def intro!: exI [of _ kn])
  qed (use l m in \<open>auto simp: inv_handled_def worker_lines_def intro!: exI [of _ kn]\<close>)
qed

lemma inv_handled_run: "run cfg es s = Some s' \<Longrightarrow> inv_handled cfg s \<Longrightarrow> inv_handled cfg s'"
proof (induction es arbitrary: s)
  case Nil
  then show ?case by simp
next
  case (Cons e es)
  then obtain s1 where 1: "step cfg e s = Some s1" and 2: "run cfg es s1 = Some s'"
    by (auto split: option.splits)
  from Cons.IH [OF 2 inv_handled_step [OF 1 Cons.prems(2)]] show ?case .
qed

lemma inv_handled_reach: "run cfg es (init cfg tbl f) = Some s \<Longrightarrow> inv_handled cfg s"
proof -
  have "inv_handled cfg (init cfg tbl f)"
    by (simp add: inv_handled_def init_def worker_lines_def)
  then show "run cfg es (init cfg tbl f) = Some s \<Longrightarrow> inv_handled cfg s"
    using inv_handled_run by blast
qed

lemma all_handled_when_finished:
  assumes I: "inv cfg tbl s" and H: "inv_handled cfg s" and fin: "main s = MDone"
    and w: "workers s \<noteq> []"
  shows "\<exists>kn. worker_lines s = map (\<lambda>p. known_line (fst p) (snd p)) kn \<and>
    mset (domains cfg) = mset (map fst kn) + mset (map domain (sent s))"
proof -
  note F = finished_facts [OF I fin]
  from F(5) have h: "concat (map holding (workers s)) = []" by auto
  from F(5) w have "WDone \<in> set (workers s)" by (cases "workers s") auto
  with I have q: "domainChan s = []" by (simp add: inv_def inv_drain_def)
  from F(4) have "mset (map domain (sent s)) = mset (map domain (probed s))"
    by (metis mset_map)
  with H h q fin show ?thesis
    by (auto simp: inv_handled_def)
qed

lemma reporter_line_in_stdout: "l \<in> set (reporter_lines s) \<longleftrightarrow> (MainT, l) \<in> set (stdout s)"
  by (force simp: reporter_lines_def)

lemma probe_outcome_reported:
  assumes reach: "run cfg es (init cfg tbl f) = Some s"
    and i: "i < length (workers s)" and at: "workers s ! i = WProbe d"
  shows "\<exists>s1. step cfg (Probe i x) s = Some s1 \<and>
    (\<exists>es' s3. run cfg es' s1 = Some s3 \<and> main s3 = MDone) \<and>
    (\<forall>es' s3. run cfg es' s1 = Some s3 \<and> main s3 = MDone \<longrightarrow>
       probe_result cfg d x \<in> set (sent s3) \<and>
       (MainT, report_line (probe_result cfg d x)) \<in> set (stdout s3))"
proof -
  let ?r = "probe_result cfg d x"
  let ?s1 = "set_worker i (if \<not> timedOut ?r then WUpsert ?r else WSend ?r)
       (s\<lparr>net := net s @ testOIDCWithTimeout_requests d x,
          logs := logs s @ testOIDCWithTimeout_log d x,
          probed := probed s @ [?r]\<rparr>)"
  have I: "inv cfg tbl s" by (rule inv_reach [OF reach])
  have st: "step cfg (Probe i x) s = Some ?s1" by (rule step_Probe [OF i at])
  have I1: "inv cfg tbl ?s1" by (rule inv_step [OF I st])
  have p1: "?r \<in> set (probed ?s1)" by (simp add: set_worker_def)
  have c: "\<exists>es' s3. run cfg es' ?s1 = Some s3 \<and> main s3 = MDone"
    by (rule completes [OF I1])
  have d: "\<forall>es' s3. run cfg es' ?s1 = Some s3 \<and> main s3 = MDone \<longrightarrow>
       ?r \<in> set (sent s3) \<and> (MainT, report_line ?r) \<in> set (stdout s3)"
  proof (intro allI impI)
    fix es' s3
    assume h: "run cfg es' ?s1 = Some s3 \<and> main s3 = MDone"
    then have r: "run cfg es' ?s1 = Some s3" and fin: "main s3 = MDone" by simp_all
    have I3: "inv cfg tbl s3" by (rule inv_run [OF r I1])
    note F = finished_facts [OF I3 fin]
    from probed_run [OF r] p1 have "?r \<in> set (probed s3)" by blast
    with F(4) have m: "?r \<in> set (sent s3)" by (metis set_mset_mset)
    with F(3) have "report_line ?r \<in> set (reporter_lines s3)" by simp
    with m show "?r \<in> set (sent s3) \<and> (MainT, report_line ?r) \<in> set (stdout s3)"
      by (simp add: reporter_line_in_stdout)
  qed
  from st c d show ?thesis by blast
qed

section \<open>Evaluating the example runs\<close>

lemmas run_eval = step_def worker_step_def init_def set_worker_def cap_def
  QueryRow_has_oidc_def probe_result_def Let_def upsert_def lookup_def appendToFile_def

lemma at_probe_reached:
  "run cfg_one to_probe (init cfg_one [] None) = Some at_probe"
  by (simp add: run_eval cfg_one_def at_probe_def to_probe_def)

lemma at_lookup_known_reached:
  "run cfg_known to_lookup (init cfg_known tbl_known None) = Some at_lookup_known"
  by (simp add: run_eval cfg_known_def at_lookup_known_def to_lookup_def)

lemmas example_defs = cfg_one_def cfg_known_def cfg_race_def cfg_seq_def cfg_good_def
  tbl_known_def json_200_def not_found_404_def to_probe_def to_lookup_def to_race_def
  race_end_def race_timeout_def race_overwrite_def race_both_def seq_dup_def locked_rerun_def
  known_rerun_def timeout_one_def found_one_def probe_url_def report_line_def known_line_def
  Header_Get_def

lemma at_upsert_reached:
  "run cfg_one (to_probe @ [Probe 0 (DoError False)]) (init cfg_one [] None) = Some at_upsert"
  by (simp add: run_eval cfg_one_def at_upsert_def to_probe_def probe_url_def)

lemma done_one_reached: "run cfg_one full_one (init cfg_one [] None) = Some done_one"
  by (simp add: run_eval cfg_one_def done_one_def to_probe_def full_one_def probe_url_def
      report_line_def)

lemma done_timeout_reached: "run cfg_one timeout_one (init cfg_one [] None) = Some done_timeout"
  by (simp add: run_eval example_defs done_timeout_def)

lemma done_both_reached: "run cfg_race race_both (init cfg_race [] None) = Some done_both"
  by (simp add: run_eval example_defs done_both_def dup_found_def dup_not_found_def)

lemma done_known_reached:
  "run cfg_known known_rerun (init cfg_known tbl_known None) = Some done_known"
  by (simp add: run_eval example_defs done_known_def)

lemma done_found_reached: "run cfg_good found_one (init cfg_good [] None) = Some done_found"
  by (simp add: run_eval example_defs done_found_def good_found_def)

lemma at_upsert_two_reached:
  "run cfg_two to_upsert_two (init cfg_two [] None) = Some at_upsert_two"
  by (simp add: run_eval cfg_two_def to_upsert_two_def at_upsert_two_def bad_not_found_def
      probe_url_def)

section \<open>Claim C1: probes that time out\<close>

text \<open>
  Claim C1, as amended. A worker whose probe times out goes straight to the send: the probe
  step and the only step the worker can take after it leave the store and the output file
  as they are. In every state of every run a worker that stands before the upsert or the
  append holds a result that did not time out, and every result that was upserted did not
  time out. So a domain that had no row before the run and all of whose probes in the run
  timed out has no row, and the query for it gives an error whatever the fault, which sends
  a worker that looks it up to the probe again.
\<close>

theorem C1_timed_out_probe_leaves_no_record:
  assumes "run cfg es (init cfg tbl f) = Some s"
  shows "(\<forall>i d. i < length (workers s) \<and> workers s ! i = WProbe d \<longrightarrow>
       (\<exists>s1. step cfg (Probe i (DoError True)) s = Some s1 \<and>
          workers s1 ! i = WSend \<lparr>domain = d, hasOIDC = False, oidcURL = [], timedOut = True\<rparr> \<and>
          db s1 = db s \<and> outfile s1 = outfile s \<and>
          (\<forall>e s2. worker_of e = Some i \<and> step cfg e s1 = Some s2 \<longrightarrow>
             e = Send i \<and> workers s2 ! i = WIdle \<and> db s2 = db s \<and> outfile s2 = outfile s))) \<and>
    (\<forall>i r. i < length (workers s) \<and> (workers s ! i = WUpsert r \<or> workers s ! i = WAppend r) \<longrightarrow>
       \<not> timedOut r) \<and>
    (\<forall>r \<in> set (persisted s). \<not> timedOut r) \<and>
    (\<forall>d. lookup tbl d = None \<and> (\<forall>r \<in> set (probed s). domain r = d \<longrightarrow> timedOut r) \<longrightarrow>
       lookup (db s) d = None \<and> (\<forall>fault. \<exists>err. QueryRow_has_oidc (db s) d fault = Inl err))"
proof -
  have I: "inv cfg tbl s" by (rule inv_reach [OF assms])
  then have H: "inv_hist s" and D: "inv_db tbl s" by (simp_all add: inv_def)
  have a: "\<forall>i d. i < length (workers s) \<and> workers s ! i = WProbe d \<longrightarrow>
       (\<exists>s1. step cfg (Probe i (DoError True)) s = Some s1 \<and>
          workers s1 ! i = WSend \<lparr>domain = d, hasOIDC = False, oidcURL = [], timedOut = True\<rparr> \<and>
          db s1 = db s \<and> outfile s1 = outfile s \<and>
          (\<forall>e s2. worker_of e = Some i \<and> step cfg e s1 = Some s2 \<longrightarrow>
             e = Send i \<and> workers s2 ! i = WIdle \<and> db s2 = db s \<and> outfile s2 = outfile s))"
  proof (intro allI impI)
    fix i d
    assume h: "i < length (workers s) \<and> workers s ! i = WProbe d"
    let ?r = "\<lparr>domain = d, hasOIDC = False, oidcURL = [], timedOut = True\<rparr>"
    let ?s1 = "set_worker i (WSend ?r)
       (s\<lparr>net := net s @ testOIDCWithTimeout_requests d (DoError True),
          logs := logs s @ testOIDCWithTimeout_log d (DoError True),
          probed := probed s @ [?r]\<rparr>)"
    from h have st: "step cfg (Probe i (DoError True)) s = Some ?s1"
      by (simp add: step_Probe probe_result_simps)
    from h have at: "i < length (workers ?s1)" "workers ?s1 ! i = WSend ?r"
      and same: "db ?s1 = db s" "outfile ?s1 = outfile s"
      by (simp_all add: set_worker_def)
    have "\<forall>e s2. worker_of e = Some i \<and> step cfg e ?s1 = Some s2 \<longrightarrow>
             e = Send i \<and> workers s2 ! i = WIdle \<and> db s2 = db s \<and> outfile s2 = outfile s"
      using after_timeout_only_send [OF at] same by metis
    with st at(2) same show "\<exists>s1. step cfg (Probe i (DoError True)) s = Some s1 \<and>
          workers s1 ! i = WSend ?r \<and> db s1 = db s \<and> outfile s1 = outfile s \<and>
          (\<forall>e s2. worker_of e = Some i \<and> step cfg e s1 = Some s2 \<longrightarrow>
             e = Send i \<and> workers s2 ! i = WIdle \<and> db s2 = db s \<and> outfile s2 = outfile s)"
      by blast
  qed
  have b: "\<forall>i r. i < length (workers s) \<and> (workers s ! i = WUpsert r \<or> workers s ! i = WAppend r) \<longrightarrow>
       \<not> timedOut r"
  proof (intro allI impI)
    fix i r
    assume h: "i < length (workers s) \<and> (workers s ! i = WUpsert r \<or> workers s ! i = WAppend r)"
    with H nth_mem [of i "workers s"] have "wstate_ok (workers s ! i)"
      by (simp add: inv_hist_def)
    with h show "\<not> timedOut r" by auto
  qed
  have c: "\<forall>r \<in> set (persisted s). \<not> timedOut r"
    using H by (simp add: inv_hist_def)
  have d: "\<forall>d. lookup tbl d = None \<and> (\<forall>r \<in> set (probed s). domain r = d \<longrightarrow> timedOut r) \<longrightarrow>
       lookup (db s) d = None \<and> (\<forall>fault. \<exists>err. QueryRow_has_oidc (db s) d fault = Inl err)"
  proof (intro allI impI)
    fix d
    assume h: "lookup tbl d = None \<and> (\<forall>r \<in> set (probed s). domain r = d \<longrightarrow> timedOut r)"
    have "last_persisted s d = None"
    proof (cases "last_persisted s d")
      case None
      then show ?thesis .
    next
      case (Some r)
      then have "r \<in> set (persisted s)" "domain r = d"
        using find_SomeD [of "\<lambda>x. domain x = d" "rev (persisted s)" r]
        by (simp_all add: last_persisted_def)
      with H h have "timedOut r" "\<not> timedOut r"
        by (auto simp: inv_hist_def)
      then show ?thesis by simp
    qed
    with D h have n: "lookup (db s) d = None"
      by (simp add: inv_db_def)
    have "\<exists>err. QueryRow_has_oidc (db s) d fault = Inl err" for fault
      using n by (cases fault) (simp_all add: QueryRow_no_fault QueryRow_fault)
    with n show "lookup (db s) d = None \<and> (\<forall>fault. \<exists>err. QueryRow_has_oidc (db s) d fault = Inl err)"
      by blast
  qed
  from a b c d show ?thesis by blast
qed

theorem C1_timed_out_probe_witness:
  "run cfg_one timeout_one (init cfg_one [] None) = Some done_timeout \<and>
   main done_timeout = MDone \<and>
   probed done_timeout =
     [\<lparr>domain = ''bad.example'', hasOIDC = False, oidcURL = [], timedOut = True\<rparr>] \<and>
   lookup [] ''bad.example'' = None \<and>
   lookup (db done_timeout) ''bad.example'' = None \<and>
   reporter_lines done_timeout =
     [''bad.example: request timed out (skipped) '' @ [CHR 0xE2, CHR 0x8F, CHR 0xB0, CHR 0x0A]]"
proof -
  have m: "main done_timeout = MDone"
    and p: "probed done_timeout =
      [\<lparr>domain = ''bad.example'', hasOIDC = False, oidcURL = [], timedOut = True\<rparr>]"
    and l: "reporter_lines done_timeout =
      [''bad.example: request timed out (skipped) '' @ [CHR 0xE2, CHR 0x8F, CHR 0xB0, CHR 0x0A]]"
    by (simp_all add: done_timeout_def reporter_lines_def)
  have e: "lookup [] ''bad.example'' = None" by (simp add: lookup_def)
  have h: "lookup [] ''bad.example'' = None \<and>
      (\<forall>r \<in> set (probed done_timeout). domain r = ''bad.example'' \<longrightarrow> timedOut r)"
    by (simp add: p lookup_def)
  from C1_timed_out_probe_leaves_no_record [OF done_timeout_reached] h
  have "lookup (db done_timeout) ''bad.example'' = None" by blast
  with done_timeout_reached m p e l show ?thesis by blast
qed

text \<open>
  Claim C1 as it is stated fails for a domain that is listed twice and probed by two
  workers at once: the first probe finds the endpoint and is upserted, the second times
  out. When the run is over the most recent outcome of \<open>dup.example\<close> is TimedOut and the
  store has a row for it.
\<close>

theorem C1_timeout_record_counterexample:
  "map_option (\<lambda>s. (main s, map (\<lambda>r. (domain r, hasOIDC r, timedOut r)) (probed s),
       lookup (db s) ''dup.example''))
     (run cfg_race race_timeout (init cfg_race [] None)) =
   Some (MDone, [(''dup.example'', True, False), (''dup.example'', False, True)], Some True)"
  by (simp add: run_eval example_defs)

section \<open>Claim C2: the classification of a completed exchange\<close>

text \<open>
  Claim C2. When the exchange completes with a response, the probe answers Found, with the
  URL \<^verbatim>\<open>https://{domain}/.well-known/openid-configuration\<close>, exactly when the status code is
  200 and the value of the Content-Type header contains \<^verbatim>\<open>application/json\<close>; in every other
  case it answers NotFound: no URL, no endpoint, no timeout.
\<close>

theorem C2_found_iff_200_and_json:
  "testOIDCWithTimeout d secs (Response resp) =
     (if StatusCode resp = 200 \<and>
         (\<exists>ps ss. Header_Get (Header resp) ''Content-Type'' = ps @ ''application/json'' @ ss)
      then (''https://'' @ d @ ''/.well-known/openid-configuration'', True, False)
      else ([], False, False))"
  by (simp add: Contains_iff probe_url_def)

section \<open>Claim C3: domains that are already known\<close>

text \<open>
  Claim C3, as amended. For every domain a worker has received and whose query finds a row
  (the query itself does not fail), the worker prints "already known" with the stored value
  and is back before the receive of the next item; nothing else changes: no request, no
  write to the store, no entry on the result channel, no line in the log or the output file.
\<close>

theorem C3_known_domain_short_circuit:
  assumes "i < length (workers s)" and "workers s ! i = WLookup d"
    and "lookup (db s) d = Some b"
  shows "run cfg [Lookup i None, PrintKnown i] s =
    Some (s\<lparr>stdout := stdout s @ [(WorkerT i, known_line d b)],
            workers := (workers s)[i := WIdle]\<rparr>)"
proof -
  have q: "QueryRow_has_oidc (db s) d None = Inr b"
    using assms(3) by (simp add: QueryRow_no_fault)
  let ?s1 = "set_worker i (WKnown d b) s"
  have 1: "step cfg (Lookup i None) s = Some ?s1"
    using assms(1,2) by (simp add: step_Lookup q)
  have len: "i < length (workers ?s1)" and at: "workers ?s1 ! i = WKnown d b"
    using assms(1) by (simp_all add: set_worker_def)
  show ?thesis
    using 1 step_PrintKnown [OF len at, of cfg] by (simp add: set_worker_def)
qed

theorem C3_known_domain_witness:
  "0 < length (workers at_lookup_known) \<and>
   workers at_lookup_known ! 0 = WLookup ''known.example'' \<and>
   lookup (db at_lookup_known) ''known.example'' = Some True \<and>
   run cfg_known [Lookup 0 None, PrintKnown 0] at_lookup_known =
     Some (at_lookup_known\<lparr>stdout := [(WorkerT 0, ''known.example: already known (has_oidc=true)'' @ [CHR 0x0A])],
       workers := [WIdle]\<rparr>)"
proof -
  have h1: "0 < length (workers at_lookup_known)"
    and h2: "workers at_lookup_known ! 0 = WLookup ''known.example''"
    and h3: "lookup (db at_lookup_known) ''known.example'' = Some True"
    by (simp_all add: at_lookup_known_def tbl_known_def lookup_def)
  have "run cfg_known [Lookup 0 None, PrintKnown 0] at_lookup_known =
     Some (at_lookup_known\<lparr>stdout := [(WorkerT 0, ''known.example: already known (has_oidc=true)'' @ [CHR 0x0A])],
       workers := [WIdle]\<rparr>)"
    using C3_known_domain_short_circuit [OF h1 h2 h3, of cfg_known]
    by (simp add: at_lookup_known_def known_line_def)
  with h1 h2 h3 show ?thesis by blast
qed

text \<open>
  Claim C3 as it is stated fails when the query fails: the row of \<open>known.example\<close> is in the
  store, the query returns the error "database is locked", and the worker probes the
  domain, overwrites the row and pushes the result on the result channel.
\<close>

theorem C3_known_domain_counterexample:
  "run cfg_known to_lookup (init cfg_known tbl_known None) = Some at_lookup_known \<and>
   workers at_lookup_known ! 0 = WLookup ''known.example'' \<and>
   lookup (db at_lookup_known) ''known.example'' = Some True \<and>
   map_option (\<lambda>s. (net s, sent s, lookup (db s) ''known.example''))
     (run cfg_known
        [Lookup 0 (Some ''database is locked''), Probe 0 (DoError False),
         Upsert 0 None 1700000060, Send 0] at_lookup_known) =
     Some ([''https://known.example/.well-known/openid-configuration''],
           [\<lparr>domain = ''known.example'', hasOIDC = False, oidcURL = [], timedOut = False\<rparr>],
           Some False)"
  by (simp add: at_lookup_known_reached)
    (simp add: run_eval cfg_known_def at_lookup_known_def tbl_known_def probe_url_def)

section \<open>Claim C4: a domain listed twice\<close>

text \<open>
  Claim C4, as amended. Over a store that is empty before the run: when the first worker is
  started the domain channel holds the whole input list, duplicates included; a worker that
  has received a domain goes on to probe it exactly when its query fails with an error or
  finds no row for the domain in the store at that moment, and goes on to report it as
  already known exactly when the query does not fail and finds a row; and in every state
  the store has at most one row for a domain, none when no upsert for it succeeded, and
  otherwise exactly one, with the value of the upsert that succeeded last.
\<close>

theorem C4_duplicates_enqueued_and_one_row_from_last_upsert:
  assumes "run cfg es (init cfg [] f) = Some s"
  shows "(main s = MSpawn 0 \<longrightarrow> domainChan s = domains cfg) \<and>
    (\<forall>i d fault. i < length (workers s) \<and> workers s ! i = WLookup d \<longrightarrow>
       step cfg (Lookup i fault) s =
         Some (set_worker i
           (case fault of
              Some err \<Rightarrow> WProbe d
            | None \<Rightarrow>
                (case lookup (db s) d of None \<Rightarrow> WProbe d | Some ex \<Rightarrow> WKnown d ex)) s)) \<and>
    (\<forall>d. length (rows_of (db s) d) \<le> 1 \<and>
       (case last_persisted s d of
          None \<Rightarrow> rows_of (db s) d = []
        | Some r \<Rightarrow> map (\<lambda>x. (name x, has_oidc x)) (rows_of (db s) d) = [(d, hasOIDC r)]))"
proof -
  have I: "inv cfg [] s" by (rule inv_reach [OF assms])
  then have D: "inv_db [] s" and ph: "inv_phase cfg s" and q: "inv_queue cfg s"
    by (simp_all add: inv_def)
  from D have dist: "distinct (map name (db s))" by (simp add: inv_db_def)
  have a: "main s = MSpawn 0 \<longrightarrow> domainChan s = domains cfg"
    using ph q by (auto simp: inv_phase_def inv_queue_def)
  have b: "\<forall>i d fault. i < length (workers s) \<and> workers s ! i = WLookup d \<longrightarrow>
       step cfg (Lookup i fault) s =
         Some (set_worker i
           (case fault of
              Some err \<Rightarrow> WProbe d
            | None \<Rightarrow>
                (case lookup (db s) d of None \<Rightarrow> WProbe d | Some ex \<Rightarrow> WKnown d ex)) s)"
    by (auto simp: step_Lookup QueryRow_no_fault QueryRow_fault split: option.splits)
  have c: "\<forall>d. length (rows_of (db s) d) \<le> 1 \<and>
       (case last_persisted s d of
          None \<Rightarrow> rows_of (db s) d = []
        | Some r \<Rightarrow> map (\<lambda>x. (name x, has_oidc x)) (rows_of (db s) d) = [(d, hasOIDC r)])"
  proof
    fix d
    show "length (rows_of (db s) d) \<le> 1 \<and>
       (case last_persisted s d of
          None \<Rightarrow> rows_of (db s) d = []
        | Some r \<Rightarrow> map (\<lambda>x. (name x, has_oidc x)) (rows_of (db s) d) = [(d, hasOIDC r)])"
    proof (cases "last_persisted s d")
      case None
      with D have "lookup (db s) d = None" by (simp add: inv_db_def lookup_def)
      then have "rows_of (db s) d = []"
        by (simp add: lookup_None_iff rows_of_absent)
      with None show ?thesis by simp
    next
      case (Some r)
      with D have "lookup (db s) d = Some (hasOIDC r)" by (simp add: inv_db_def)
      from rows_of_lookup [OF dist this] rows_of_distinct [OF dist, of d] Some
      show ?thesis by simp
    qed
  qed
  from a b c show ?thesis by blast
qed

theorem C4_both_occurrences_probed_witness:
  "run cfg_race race_both (init cfg_race [] None) = Some done_both \<and>
   main done_both = MDone \<and>
   net done_both = [''https://dup.example/.well-known/openid-configuration'',
                    ''https://dup.example/.well-known/openid-configuration''] \<and>
   last_persisted done_both ''dup.example'' = Some dup_found \<and>
   length (rows_of (db done_both) ''dup.example'') \<le> 1 \<and>
   map (\<lambda>x. (name x, has_oidc x)) (rows_of (db done_both) ''dup.example'') =
     [(''dup.example'', True)]"
proof -
  have m: "main done_both = MDone"
    and n: "net done_both = [''https://dup.example/.well-known/openid-configuration'',
                    ''https://dup.example/.well-known/openid-configuration'']"
    and l: "last_persisted done_both ''dup.example'' = Some dup_found"
    by (simp_all add: done_both_def last_persisted_def dup_found_def dup_not_found_def)
  from C4_duplicates_enqueued_and_one_row_from_last_upsert [OF done_both_reached]
  have "length (rows_of (db done_both) ''dup.example'') \<le> 1 \<and>
       (case last_persisted done_both ''dup.example'' of
          None \<Rightarrow> rows_of (db done_both) ''dup.example'' = []
        | Some r \<Rightarrow> map (\<lambda>x. (name x, has_oidc x)) (rows_of (db done_both) ''dup.example'') =
            [(''dup.example'', hasOIDC r)])"
    by blast
  with l have "length (rows_of (db done_both) ''dup.example'') \<le> 1"
    "map (\<lambda>x. (name x, has_oidc x)) (rows_of (db done_both) ''dup.example'') =
       [(''dup.example'', True)]"
    by (simp_all add: dup_found_def)
  with done_both_reached m n l show ?thesis by blast
qed

text \<open>
  Claim C4 as it is stated fails with one worker: the first occurrence of \<open>dup.example\<close>
  is probed and upserted, the second is found in the store and reported as already known.
  One request is sent for the two occurrences.
\<close>

theorem C4_second_occurrence_not_probed_counterexample:
  "map_option (\<lambda>s. (main s, net s, stdout s, db s))
     (run cfg_seq seq_dup (init cfg_seq [] None)) =
   Some (MDone, [''https://dup.example/.well-known/openid-configuration''],
     [(WorkerT 0, ''dup.example: already known (has_oidc=false)'' @ [CHR 0x0A]),
      (MainT, ''dup.example: no OIDC endpoint '' @ [CHR 0xE2, CHR 0x9D, CHR 0x8C, CHR 0x0A])],
     [\<lparr>name = ''dup.example'', has_oidc = False, tested_at = 1700000000\<rparr>])"
  by (simp add: run_eval example_defs)

section \<open>Claim C5: running the batch again\<close>

text \<open>
  Claim C5, as amended. When every domain of the input list has a row in the store before
  the run and no query of the run fails, then in every state of the run no request has been
  sent, no probe has returned, nothing has been pushed on the result channel, and the store
  and the output file are what they were.
\<close>

theorem C5_rerun_without_lookup_fault_probes_nothing:
  assumes "run cfg es (init cfg tbl f) = Some s"
    and "\<forall>d \<in> set (domains cfg). lookup tbl d \<noteq> None"
    and "\<forall>e \<in> set es. \<not> lookup_fault e"
  shows "net s = [] \<and> probed s = [] \<and> sent s = [] \<and> db s = tbl \<and> outfile s = f"
  using inv_known_run [OF assms(1) inv_known_init assms(3) assms(2)]
  by (simp add: inv_known_def)

theorem C5_known_rerun_witness:
  "run cfg_known known_rerun (init cfg_known tbl_known None) = Some done_known \<and>
   main done_known = MDone \<and>
   lookup tbl_known ''known.example'' = Some True \<and>
   net done_known = [] \<and> probed done_known = [] \<and> sent done_known = [] \<and>
   db done_known = tbl_known \<and> outfile done_known = None"
proof -
  have m: "main done_known = MDone" by (simp add: done_known_def)
  have k: "lookup tbl_known ''known.example'' = Some True"
    by (simp add: tbl_known_def lookup_def)
  have h1: "\<forall>d \<in> set (domains cfg_known). lookup tbl_known d \<noteq> None"
    by (simp add: cfg_known_def tbl_known_def lookup_def)
  have h2: "\<forall>e \<in> set known_rerun. \<not> lookup_fault e"
    by (simp add: known_rerun_def to_lookup_def)
  from C5_rerun_without_lookup_fault_probes_nothing [OF done_known_reached h1 h2]
    done_known_reached m k
  show ?thesis by blast
qed

text \<open>
  Claim C5 as it is stated fails when a query fails: \<open>known.example\<close> has a row, the query
  returns "database is locked", the domain is probed and its row overwritten.
\<close>

theorem C5_locked_rerun_counterexample:
  "domains cfg_known = [''known.example''] \<and>
   lookup tbl_known ''known.example'' = Some True \<and>
   map_option (\<lambda>s. (main s, net s, lookup (db s) ''known.example''))
     (run cfg_known locked_rerun (init cfg_known tbl_known None)) =
   Some (MDone, [''https://known.example/.well-known/openid-configuration''], Some False)"
  by (simp add: run_eval example_defs)

section \<open>Claim C6: looking up what a run stored\<close>

text \<open>
  Claim C6, as amended. For every domain for which the run upserted a result, with or
  without a row before the run: the result upserted last for the domain did not time out,
  and a query of the store after the run, when it does not fail, returns the \<open>hasOIDC\<close> of
  that result (which is the only one when the run upserted a single result for the domain).
\<close>

theorem C6_lookup_returns_last_persisted:
  assumes "run cfg es (init cfg tbl f) = Some s" and "last_persisted s d = Some r"
  shows "r \<in> set (persisted s) \<and> domain r = d \<and> \<not> timedOut r \<and>
    r = last (filter (\<lambda>x. domain x = d) (persisted s)) \<and>
    lookup (db s) d = Some (hasOIDC r) \<and>
    QueryRow_has_oidc (db s) d None = Inr (hasOIDC r)"
proof -
  have I: "inv cfg tbl s" by (rule inv_reach [OF assms(1)])
  from assms(2) have mem: "r \<in> set (persisted s)" and dom: "domain r = d"
    using find_SomeD [of "\<lambda>x. domain x = d" "rev (persisted s)" r]
    by (simp_all add: last_persisted_def)
  from I mem have nt: "\<not> timedOut r" by (simp add: inv_def inv_hist_def)
  from assms(2) have l: "r = last (filter (\<lambda>x. domain x = d) (persisted s))"
    by (simp add: last_persisted_def find_rev_last)
  from I assms(2) have v: "lookup (db s) d = Some (hasOIDC r)"
    by (simp add: inv_def inv_db_def)
  then have "QueryRow_has_oidc (db s) d None = Inr (hasOIDC r)"
    by (simp add: QueryRow_no_fault)
  with mem dom nt l v show ?thesis by simp
qed

theorem C6_lookup_after_run_witness:
  "run cfg_good found_one (init cfg_good [] None) = Some done_found \<and>
   main done_found = MDone \<and>
   lookup [] ''good.example'' = None \<and>
   last_persisted done_found ''good.example'' = Some good_found \<and>
   hasOIDC good_found \<and>
   lookup (db done_found) ''good.example'' = Some True \<and>
   QueryRow_has_oidc (db done_found) ''good.example'' None = Inr True"
proof -
  have m: "main done_found = MDone" by (simp add: done_found_def)
  have l: "last_persisted done_found ''good.example'' = Some good_found"
    by (simp add: last_persisted_def done_found_def good_found_def)
  have e: "lookup [] ''good.example'' = None" by (simp add: lookup_def)
  have g: "hasOIDC good_found" by (simp add: good_found_def)
  from C6_lookup_returns_last_persisted [OF done_found_reached l] g
  have "lookup (db done_found) ''good.example'' = Some True"
    "QueryRow_has_oidc (db done_found) ''good.example'' None = Inr True"
    by simp_all
  with done_found_reached m l e g show ?thesis by blast
qed

text \<open>
  Claim C6 as it is stated fails for a domain that is listed twice and probed by two
  workers at once: the store has no row before the run, the run upserts Found and then
  NotFound for \<open>dup.example\<close>, and the query after the run returns false.
\<close>

theorem C6_overwritten_outcome_counterexample:
  "map_option (\<lambda>s. (main s, map (\<lambda>r. (domain r, hasOIDC r, timedOut r)) (persisted s),
       lookup (db s) ''dup.example'', lookup [] ''dup.example''))
     (run cfg_race race_overwrite (init cfg_race [] None)) =
   Some (MDone, [(''dup.example'', True, False), (''dup.example'', False, False)], Some False, None)"
  by (simp add: run_eval example_defs)

section \<open>Claim C7: transport errors\<close>

text \<open>
  Claim C7. In a state reached by a run, let a worker stand before the probe of a domain.
  A transport error (\<^verbatim>\<open>client.Do\<close> fails and the deadline has not passed) gives the same
  result as a response that is NotFound; the worker goes on to the upsert, after which the
  store holds \<open>has_oidc = false\<close> for the domain; the run can be completed from there, and
  in whatever way it completes, the reporting loop of \<^verbatim>\<open>processFile\<close> has printed the line
  "domain: no OIDC endpoint" for it on the standard output. The same holds for every
  outcome of the exchange with the line of that outcome, and that line is "request timed
  out (skipped)" for a passed deadline only and "OIDC endpoint found" for a response with
  status 200 and a JSON content type only.
\<close>

theorem C7_transport_error_reported_and_stored_as_no_endpoint:
  assumes "run cfg es (init cfg tbl f) = Some s"
    and "i < length (workers s)" and "workers s ! i = WProbe d"
  shows "testOIDCWithTimeout d (timeoutSecs cfg) (DoError False) = ([], False, False) \<and>
    probe_result cfg d (DoError False) =
      probe_result cfg d (Response \<lparr>StatusCode = 404, Header = Map.empty\<rparr>) \<and>
    (\<exists>s1. step cfg (Probe i (DoError False)) s = Some s1 \<and>
       (\<exists>s2. step cfg (Upsert i None now) s1 = Some s2 \<and> lookup (db s2) d = Some False) \<and>
       (\<exists>es' s3. run cfg es' s1 = Some s3 \<and> main s3 = MDone) \<and>
       (\<forall>es' s3. run cfg es' s1 = Some s3 \<and> main s3 = MDone \<longrightarrow>
          (MainT, d @ '': no OIDC endpoint '' @ [CHR 0xE2, CHR 0x9D, CHR 0x8C, CHR 0x0A])
            \<in> set (stdout s3))) \<and>
    (\<exists>s1. step cfg (Probe i x) s = Some s1 \<and>
       (\<forall>es' s3. run cfg es' s1 = Some s3 \<and> main s3 = MDone \<longrightarrow>
          (MainT, report_line (probe_result cfg d x)) \<in> set (stdout s3))) \<and>
    report_line (probe_result cfg d x) =
      (case x of
         DoError True \<Rightarrow>
           d @ '': request timed out (skipped) '' @ [CHR 0xE2, CHR 0x8F, CHR 0xB0, CHR 0x0A]
       | Response resp \<Rightarrow>
           if StatusCode resp = 200 \<and>
              Contains (Header_Get (Header resp) ''Content-Type'') ''application/json''
           then d @ '': OIDC endpoint found '' @ [CHR 0xE2, CHR 0x9C, CHR 0x85, CHR 0x0A]
           else d @ '': no OIDC endpoint '' @ [CHR 0xE2, CHR 0x9D, CHR 0x8C, CHR 0x0A]
       | _ \<Rightarrow> d @ '': no OIDC endpoint '' @ [CHR 0xE2, CHR 0x9D, CHR 0x8C, CHR 0x0A])"
proof -
  let ?r = "\<lparr>domain = d, hasOIDC = False, oidcURL = [], timedOut = False\<rparr>"
  let ?line = "d @ '': no OIDC endpoint '' @ [CHR 0xE2, CHR 0x9D, CHR 0x8C, CHR 0x0A]"
  have r: "probe_result cfg d (DoError False) = ?r" by (simp add: probe_result_simps)
  have rl: "report_line ?r = ?line" by (simp add: report_line_def)
  from probe_outcome_reported [OF assms, of "DoError False"]
  obtain s1 where st: "step cfg (Probe i (DoError False)) s = Some s1"
    and c: "\<exists>es' s3. run cfg es' s1 = Some s3 \<and> main s3 = MDone"
    and d: "\<forall>es' s3. run cfg es' s1 = Some s3 \<and> main s3 = MDone \<longrightarrow>
       (MainT, ?line) \<in> set (stdout s3)"
    unfolding r rl by blast
  have s1: "s1 = set_worker i (WUpsert ?r)
       (s\<lparr>net := net s @ testOIDCWithTimeout_requests d (DoError False),
          logs := logs s @ testOIDCWithTimeout_log d (DoError False),
          probed := probed s @ [?r]\<rparr>)"
    using st step_Probe [OF assms(2,3), of cfg "DoError False"] by (simp add: r)
  have len: "i < length (workers s1)" and at: "workers s1 ! i = WUpsert ?r"
    using assms(2) by (simp_all add: s1 set_worker_def)
  have u: "\<exists>s2. step cfg (Upsert i None now) s1 = Some s2 \<and> lookup (db s2) d = Some False"
    using step_Upsert [OF len at, of cfg None now] by (simp add: set_worker_def lookup_upsert)
  have 1: "\<exists>s1. step cfg (Probe i (DoError False)) s = Some s1 \<and>
       (\<exists>s2. step cfg (Upsert i None now) s1 = Some s2 \<and> lookup (db s2) d = Some False) \<and>
       (\<exists>es' s3. run cfg es' s1 = Some s3 \<and> main s3 = MDone) \<and>
       (\<forall>es' s3. run cfg es' s1 = Some s3 \<and> main s3 = MDone \<longrightarrow>
          (MainT, ?line) \<in> set (stdout s3))"
    using st u c d by blast
  have 2: "\<exists>s1. step cfg (Probe i x) s = Some s1 \<and>
       (\<forall>es' s3. run cfg es' s1 = Some s3 \<and> main s3 = MDone \<longrightarrow>
          (MainT, report_line (probe_result cfg d x)) \<in> set (stdout s3))"
    using probe_outcome_reported [OF assms, of x] by blast
  have 3: "probe_result cfg d (DoError False) =
      probe_result cfg d (Response \<lparr>StatusCode = 404, Header = Map.empty\<rparr>)"
    by (simp add: probe_result_simps)
  have 4: "report_line (probe_result cfg d x) =
      (case x of
         DoError True \<Rightarrow>
           d @ '': request timed out (skipped) '' @ [CHR 0xE2, CHR 0x8F, CHR 0xB0, CHR 0x0A]
       | Response resp \<Rightarrow>
           if StatusCode resp = 200 \<and>
              Contains (Header_Get (Header resp) ''Content-Type'') ''application/json''
           then d @ '': OIDC endpoint found '' @ [CHR 0xE2, CHR 0x9C, CHR 0x85, CHR 0x0A]
           else d @ '': no OIDC endpoint '' @ [CHR 0xE2, CHR 0x9D, CHR 0x8C, CHR 0x0A]
       | _ \<Rightarrow> d @ '': no OIDC endpoint '' @ [CHR 0xE2, CHR 0x9D, CHR 0x8C, CHR 0x0A])"
    by (cases x) (simp_all add: probe_result_simps report_line_def)
  have 0: "testOIDCWithTimeout d (timeoutSecs cfg) (DoError False) = ([], False, False)"
    by simp
  from 0 1 2 3 4 show ?thesis by blast
qed

theorem C7_transport_error_witness:
  "run cfg_one to_probe (init cfg_one [] None) = Some at_probe \<and>
   0 < length (workers at_probe) \<and> workers at_probe ! 0 = WProbe ''bad.example'' \<and>
   (\<exists>s1 s2. step cfg_one (Probe 0 (DoError False)) at_probe = Some s1 \<and>
       step cfg_one (Upsert 0 None 1700000000) s1 = Some s2 \<and>
       lookup (db s2) ''bad.example'' = Some False \<and>
       run cfg_one [Send 0, Recv 0, SupClose, RepRecv, RepPrint, RepRecv] s2 = Some done_stored) \<and>
   main done_stored = MDone \<and>
   (MainT, ''bad.example: no OIDC endpoint '' @ [CHR 0xE2, CHR 0x9D, CHR 0x8C, CHR 0x0A])
     \<in> set (stdout done_stored)"
proof -
  let ?r = "\<lparr>domain = ''bad.example'', hasOIDC = False, oidcURL = [], timedOut = False\<rparr>"
  let ?line = "''bad.example: no OIDC endpoint '' @ [CHR 0xE2, CHR 0x9D, CHR 0x8C, CHR 0x0A]"
  let ?s1 = "at_probe\<lparr>net := [''https://bad.example/.well-known/openid-configuration''],
    probed := [?r], workers := [WUpsert ?r]\<rparr>"
  let ?s2 = "?s1\<lparr>db := [\<lparr>name = ''bad.example'', has_oidc = False, tested_at = 1700000000\<rparr>],
    persisted := [?r], workers := [WSend ?r]\<rparr>"
  have h1: "0 < length (workers at_probe)" and h2: "workers at_probe ! 0 = WProbe ''bad.example''"
    by (simp_all add: at_probe_def)
  have a: "step cfg_one (Probe 0 (DoError False)) at_probe = Some ?s1"
    by (simp add: run_eval cfg_one_def at_probe_def probe_url_def)
  have b: "step cfg_one (Upsert 0 None 1700000000) ?s1 = Some ?s2"
    by (simp add: run_eval cfg_one_def at_probe_def)
  have l: "lookup (db ?s2) ''bad.example'' = Some False"
    by (simp add: lookup_def)
  have c: "run cfg_one [Send 0, Recv 0, SupClose, RepRecv, RepPrint, RepRecv] ?s2 = Some done_stored"
    by (simp add: run_eval cfg_one_def at_probe_def done_stored_def done_one_def report_line_def)
  have m: "main done_stored = MDone" by (simp add: done_stored_def done_one_def)
  from b c have full: "run cfg_one
      (Upsert 0 None 1700000000 # [Send 0, Recv 0, SupClose, RepRecv, RepPrint, RepRecv]) ?s1
      = Some done_stored"
    by simp
  from C7_transport_error_reported_and_stored_as_no_endpoint
    [OF at_probe_reached h1 h2, of 1700000000 "DoError False"]
  obtain s1 where st: "step cfg_one (Probe 0 (DoError False)) at_probe = Some s1"
    and d: "\<forall>es' s3. run cfg_one es' s1 = Some s3 \<and> main s3 = MDone \<longrightarrow>
          (MainT, ''bad.example'' @ '': no OIDC endpoint '' @
             [CHR 0xE2, CHR 0x9D, CHR 0x8C, CHR 0x0A]) \<in> set (stdout s3)"
    by blast
  from st a have "s1 = ?s1" by simp
  with d full m have "(MainT, ''bad.example'' @ '': no OIDC endpoint '' @
      [CHR 0xE2, CHR 0x9D, CHR 0x8C, CHR 0x0A]) \<in> set (stdout done_stored)"
    by blast
  then have p: "(MainT, ?line) \<in> set (stdout done_stored)" by simp
  from at_probe_reached h1 h2 a b l c m p show ?thesis by blast
qed

section \<open>Claim C8: an upsert that fails\<close>

text \<open>
  Claim C8. When a worker stands before the upsert of a result (which then did not time
  out) and the upsert fails: the store is unchanged, the log gets the line
  "Failed to insert domain: error", and the worker goes on to the append or the send. From
  there the run can be completed; in every state it reaches, every worker can take the
  step at which it stands whatever the environment answers (a query, a probe, an upsert or
  an append that fails included), and the run is never stuck before the reporting loop has
  ended. In whatever way it completes: the domain channel has been emptied; the result is
  on the list of results pushed on the result channel and the reporting loop has printed
  its line on the standard output; the lines of the reporting loop are those of the results
  pushed, in their order; and every occurrence of every domain of the input list, those
  after the failed upsert included, has either been reported as already known by a worker
  or been probed, its result pushed and its line printed.
\<close>

theorem C8_failed_upsert_logged_and_outcome_still_reported:
  assumes "run cfg es (init cfg tbl f) = Some s"
    and "i < length (workers s)" and "workers s ! i = WUpsert r"
  shows "\<exists>s1. step cfg (Upsert i (Some err) now) s = Some s1 \<and>
    db s1 = db s \<and>
    logs s1 = logs s @ [''Failed to insert '' @ domain r @ '': '' @ err] \<and>
    workers s1 ! i = (if hasOIDC r \<and> outFile cfg \<noteq> [] then WAppend r else WSend r) \<and>
    \<not> timedOut r \<and>
    (\<exists>es' s2. run cfg es' s1 = Some s2 \<and> main s2 = MDone) \<and>
    (\<forall>es' s2. run cfg es' s1 = Some s2 \<longrightarrow>
       (\<forall>j e. j < length (workers s2) \<and> worker_of e = Some j \<and> at_point e (workers s2 ! j) \<longrightarrow>
          (\<exists>s3. step cfg e s2 = Some s3)) \<and>
       (main s2 \<noteq> MDone \<longrightarrow> (\<exists>e s3. step cfg e s2 = Some s3)) \<and>
       (main s2 = MDone \<longrightarrow>
          domainChan s2 = [] \<and> r \<in> set (sent s2) \<and> report_line r \<in> set (reporter_lines s2) \<and>
          (MainT, report_line r) \<in> set (stdout s2) \<and>
          reporter_lines s2 = map report_line (sent s2) \<and>
          (\<exists>kn. worker_lines s2 = map (\<lambda>p. known_line (fst p) (snd p)) kn \<and>
             mset (domains cfg) = mset (map fst kn) + mset (map domain (sent s2)))))"
proof -
  let ?w = "if hasOIDC r \<and> outFile cfg \<noteq> [] then WAppend r else WSend r"
  let ?s1 = "set_worker i ?w (s\<lparr>logs := logs s @ [''Failed to insert '' @ domain r @ '': '' @ err]\<rparr>)"
  have I: "inv cfg tbl s" by (rule inv_reach [OF assms(1)])
  have H: "inv_handled cfg s" by (rule inv_handled_reach [OF assms(1)])
  have st: "step cfg (Upsert i (Some err) now) s = Some ?s1"
    using step_Upsert [OF assms(2,3), of cfg "Some err" now] by simp
  have I1: "inv cfg tbl ?s1" by (rule inv_step [OF I st])
  have H1: "inv_handled cfg ?s1" by (rule inv_handled_step [OF st H])
  have a: "db ?s1 = db s" "logs ?s1 = logs s @ [''Failed to insert '' @ domain r @ '': '' @ err]"
    "workers ?s1 ! i = ?w"
    using assms(2) by (simp_all add: set_worker_def)
  have nt: "\<not> timedOut r"
    using I assms(2,3) nth_mem [of i "workers s"] by (fastforce simp: inv_def inv_hist_def)
  have len1: "i < length (workers ?s1)"
    using assms(2) by (simp add: set_worker_def)
  have "r \<in> set (result_of (workers ?s1 ! i))"
    using a(3) by simp
  with I1 len1 have p1: "r \<in> set (probed ?s1)"
    using held_in_probed [of ?s1 i r] by (simp add: inv_def)
  have pos: "0 < nat (parallel cfg)"
    using I assms(2) by (auto simp: inv_def inv_phase_def split: mstate.splits)
  have c: "\<exists>es' s2. run cfg es' ?s1 = Some s2 \<and> main s2 = MDone"
    by (rule completes [OF I1])
  have d: "\<forall>es' s2. run cfg es' ?s1 = Some s2 \<longrightarrow>
       (\<forall>j e. j < length (workers s2) \<and> worker_of e = Some j \<and> at_point e (workers s2 ! j) \<longrightarrow>
          (\<exists>s3. step cfg e s2 = Some s3)) \<and>
       (main s2 \<noteq> MDone \<longrightarrow> (\<exists>e s3. step cfg e s2 = Some s3)) \<and>
       (main s2 = MDone \<longrightarrow>
          domainChan s2 = [] \<and> r \<in> set (sent s2) \<and> report_line r \<in> set (reporter_lines s2) \<and>
          (MainT, report_line r) \<in> set (stdout s2) \<and>
          reporter_lines s2 = map report_line (sent s2) \<and>
          (\<exists>kn. worker_lines s2 = map (\<lambda>p. known_line (fst p) (snd p)) kn \<and>
             mset (domains cfg) = mset (map fst kn) + mset (map domain (sent s2))))"
  proof (intro allI impI)
    fix es' s2
    assume r: "run cfg es' ?s1 = Some s2"
    have I2: "inv cfg tbl s2" by (rule inv_run [OF r I1])
    have H2: "inv_handled cfg s2" by (rule inv_handled_run [OF r H1])
    have A: "\<forall>j e. j < length (workers s2) \<and> worker_of e = Some j \<and> at_point e (workers s2 ! j) \<longrightarrow>
          (\<exists>s3. step cfg e s2 = Some s3)"
      using enabled_at_point [OF I2] by blast
    have B: "main s2 \<noteq> MDone \<longrightarrow> (\<exists>e s3. step cfg e s2 = Some s3)"
      using I2 progress [of cfg s2] by (simp add: inv_def)
    have C: "main s2 = MDone \<longrightarrow>
          domainChan s2 = [] \<and> r \<in> set (sent s2) \<and> report_line r \<in> set (reporter_lines s2) \<and>
          (MainT, report_line r) \<in> set (stdout s2) \<and>
          reporter_lines s2 = map report_line (sent s2) \<and>
          (\<exists>kn. worker_lines s2 = map (\<lambda>p. known_line (fst p) (snd p)) kn \<and>
             mset (domains cfg) = mset (map fst kn) + mset (map domain (sent s2)))"
    proof
      assume fin: "main s2 = MDone"
      note F = finished_facts [OF I2 fin]
      from all_done_when_closed [OF I2 F(1)] pos have ne: "workers s2 \<noteq> []"
        and "WDone \<in> set (workers s2)"
        by (cases "workers s2"; auto)+
      with I2 have q: "domainChan s2 = []"
        by (simp add: inv_def inv_drain_def)
      from probed_run [OF r] p1 have "r \<in> set (probed s2)" by blast
      with F(4) have m: "r \<in> set (sent s2)"
        by (metis set_mset_mset)
      with F(3) have l: "report_line r \<in> set (reporter_lines s2)"
        by simp
      then have o: "(MainT, report_line r) \<in> set (stdout s2)"
        by (simp add: reporter_line_in_stdout)
      from q m l o F(3) all_handled_when_finished [OF I2 H2 fin ne]
      show "domainChan s2 = [] \<and> r \<in> set (sent s2) \<and> report_line r \<in> set (reporter_lines s2) \<and>
          (MainT, report_line r) \<in> set (stdout s2) \<and>
          reporter_lines s2 = map report_line (sent s2) \<and>
          (\<exists>kn. worker_lines s2 = map (\<lambda>p. known_line (fst p) (snd p)) kn \<and>
             mset (domains cfg) = mset (map fst kn) + mset (map domain (sent s2)))"
        by simp
    qed
    from A B C show "(\<forall>j e. j < length (workers s2) \<and> worker_of e = Some j \<and>
          at_point e (workers s2 ! j) \<longrightarrow> (\<exists>s3. step cfg e s2 = Some s3)) \<and>
       (main s2 \<noteq> MDone \<longrightarrow> (\<exists>e s3. step cfg e s2 = Some s3)) \<and>
       (main s2 = MDone \<longrightarrow>
          domainChan s2 = [] \<and> r \<in> set (sent s2) \<and> report_line r \<in> set (reporter_lines s2) \<and>
          (MainT, report_line r) \<in> set (stdout s2) \<and>
          reporter_lines s2 = map report_line (sent s2) \<and>
          (\<exists>kn. worker_lines s2 = map (\<lambda>p. known_line (fst p) (snd p)) kn \<and>
             mset (domains cfg) = mset (map fst kn) + mset (map domain (sent s2))))"
      by blast
  qed
  from st a nt c d show ?thesis by blast
qed

theorem C8_failed_upsert_witness:
  "run cfg_two to_upsert_two (init cfg_two [] None) = Some at_upsert_two \<and>
   0 < length (workers at_upsert_two) \<and>
   workers at_upsert_two ! 0 = WUpsert bad_not_found \<and>
   (\<exists>s1. step cfg_two (Upsert 0 (Some ''disk I/O error'') 1700000000) at_upsert_two = Some s1 \<and>
      db s1 = db at_upsert_two \<and>
      logs s1 = [''Failed to insert bad.example: disk I/O error''] \<and>
      workers s1 ! 0 = WSend bad_not_found \<and>
      run cfg_two rest_two s1 = Some done_two) \<and>
   main done_two = MDone \<and>
   sent done_two = [bad_not_found, good_found] \<and>
   bad_not_found \<in> set (sent done_two) \<and>
   (MainT, report_line bad_not_found) \<in> set (stdout done_two) \<and>
   reporter_lines done_two = map report_line (sent done_two)"
proof -
  have h2: "0 < length (workers at_upsert_two)"
    and h3: "workers at_upsert_two ! 0 = WUpsert bad_not_found"
    by (simp_all add: at_upsert_two_def)
  let ?s1 = "at_upsert_two\<lparr>logs := [''Failed to insert bad.example: disk I/O error''],
    workers := [WSend bad_not_found]\<rparr>"
  have 1: "step cfg_two (Upsert 0 (Some ''disk I/O error'') 1700000000) at_upsert_two = Some ?s1"
    by (simp add: run_eval cfg_two_def at_upsert_two_def bad_not_found_def)
  have 2: "db ?s1 = db at_upsert_two"
    and 3: "logs ?s1 = [''Failed to insert bad.example: disk I/O error'']"
    and 4: "workers ?s1 ! 0 = WSend bad_not_found"
    by simp_all
  have 6: "run cfg_two rest_two ?s1 = Some done_two"
    by (simp add: run_eval example_defs cfg_two_def rest_two_def at_upsert_two_def done_two_def
        bad_not_found_def good_found_def)
  have m: "main done_two = MDone" and sn: "sent done_two = [bad_not_found, good_found]"
    by (simp_all add: done_two_def)
  from C8_failed_upsert_logged_and_outcome_still_reported
    [OF at_upsert_two_reached h2 h3, of "''disk I/O error''" 1700000000]
  obtain s1 where a: "step cfg_two (Upsert 0 (Some ''disk I/O error'') 1700000000) at_upsert_two = Some s1"
    and 5: "\<forall>es' s2. run cfg_two es' s1 = Some s2 \<longrightarrow>
       (main s2 = MDone \<longrightarrow>
          bad_not_found \<in> set (sent s2) \<and>
          (MainT, report_line bad_not_found) \<in> set (stdout s2) \<and>
          reporter_lines s2 = map report_line (sent s2))"
    by blast
  from a 1 have "s1 = ?s1" by simp
  with 5 6 m have 7: "bad_not_found \<in> set (sent done_two)"
    "(MainT, report_line bad_not_found) \<in> set (stdout done_two)"
    "reporter_lines done_two = map report_line (sent done_two)"
    by blast+
  from at_upsert_two_reached h2 h3 1 2 3 4 6 m sn 7 show ?thesis by blast
qed

section \<open>Claim C9: filling the queue, closing the result channel, the end of the report\<close>

text \<open>
  Claim C9. In every state of every run: as long as no worker has been started, the domain
  channel and what is still to be sent make up the input list, and at the moment the first
  worker is started the channel holds the whole list and is closed; once a worker exists
  nothing is sent any more and the channel holds a rest of the list. The result channel is
  closed only when all \<^verbatim>\<open>parallel\<close> workers have been started and have returned. No run is
  longer than \<open>9 * len(domains) + 2 * max(parallel, 0) + 5\<close> events, a run in which the reporting loop
  has not ended can always take another step, and can be continued until the loop has ended;
  when it has ended, the result channel is empty and the reporter has printed exactly the
  lines of the results pushed on the channel, one each, in their order.
\<close>

theorem C9_queue_filled_before_workers_and_reporter_terminates:
  assumes "run cfg es (init cfg tbl f) = Some s"
  shows "(workers s = [] \<longrightarrow> domainChan s @ unsent (main s) = domains cfg) \<and>
    (workers s \<noteq> [] \<longrightarrow>
       domainChan_closed s \<and> unsent (main s) = [] \<and> suffix (domainChan s) (domains cfg)) \<and>
    (main s = MSpawn 0 \<longrightarrow>
       workers s = [] \<and> domainChan_closed s \<and> domainChan s = domains cfg) \<and>
    (resultChan_closed s \<longrightarrow>
       length (workers s) = nat (parallel cfg) \<and> (\<forall>w \<in> set (workers s). w = WDone)) \<and>
    length es \<le> 9 * length (domains cfg) + 2 * nat (parallel cfg) + 5 \<and>
    (main s \<noteq> MDone \<longrightarrow> (\<exists>e s'. step cfg e s = Some s')) \<and>
    (\<exists>es' s'. run cfg (es @ es') (init cfg tbl f) = Some s' \<and> main s' = MDone) \<and>
    (main s = MDone \<longrightarrow> resultChan s = [] \<and> reporter_lines s = map report_line (sent s))"
proof -
  have I: "inv cfg tbl s" by (rule inv_reach [OF assms])
  then have ph: "inv_phase cfg s" and q: "inv_queue cfg s" by (simp_all add: inv_def)
  have 1: "workers s = [] \<longrightarrow> domainChan s @ unsent (main s) = domains cfg"
    using q by (simp add: inv_queue_def)
  have 2: "workers s \<noteq> [] \<longrightarrow>
       domainChan_closed s \<and> unsent (main s) = [] \<and> suffix (domainChan s) (domains cfg)"
    using ph q by (auto simp: inv_phase_def inv_queue_def split: mstate.splits)
  have 3: "main s = MSpawn 0 \<longrightarrow>
       workers s = [] \<and> domainChan_closed s \<and> domainChan s = domains cfg"
    using ph q by (auto simp: inv_phase_def inv_queue_def)
  have 4: "resultChan_closed s \<longrightarrow>
       length (workers s) = nat (parallel cfg) \<and> (\<forall>w \<in> set (workers s). w = WDone)"
    using all_done_when_closed [OF I] by blast
  have 5: "length es \<le> 9 * length (domains cfg) + 2 * nat (parallel cfg) + 5"
    using budget_run [OF assms] by (simp add: init_budget)
  have 6: "main s \<noteq> MDone \<longrightarrow> (\<exists>e s'. step cfg e s = Some s')"
    using I progress [of cfg s] by (simp add: inv_def)
  from completes [OF I] obtain es' s' where "run cfg es' s = Some s'" "main s' = MDone"
    by blast
  with assms have 7: "\<exists>es' s'. run cfg (es @ es') (init cfg tbl f) = Some s' \<and> main s' = MDone"
    by (auto simp: run_append)
  have 8: "main s = MDone \<longrightarrow> resultChan s = [] \<and> reporter_lines s = map report_line (sent s)"
    using finished_facts [OF I] by blast
  from 1 2 3 4 5 6 7 8 show ?thesis by blast
qed

theorem C9_one_domain_witness:
  "run cfg_one full_one (init cfg_one [] None) = Some done_one \<and>
   main done_one = MDone \<and> resultChan_closed done_one \<and>
   length (workers done_one) = nat (parallel cfg_one) \<and>
   workers done_one = [WDone] \<and>
   length full_one \<le> 9 * length (domains cfg_one) + 2 * nat (parallel cfg_one) + 5 \<and>
   resultChan done_one = [] \<and>
   reporter_lines done_one = map report_line (sent done_one) \<and>
   reporter_lines done_one =
     [''bad.example: no OIDC endpoint '' @ [CHR 0xE2, CHR 0x9D, CHR 0x8C, CHR 0x0A]]"
proof -
  note T = C9_queue_filled_before_workers_and_reporter_terminates [OF done_one_reached]
  have m: "main done_one = MDone" and c: "resultChan_closed done_one"
    by (simp_all add: done_one_def)
  have l: "reporter_lines done_one =
     [''bad.example: no OIDC endpoint '' @ [CHR 0xE2, CHR 0x9D, CHR 0x8C, CHR 0x0A]]"
    by (simp add: done_one_def reporter_lines_def)
  have w: "workers done_one = [WDone]" by (simp add: done_one_def)
  from T m c l w done_one_reached show ?thesis by blast
qed

section \<open>Claim C10: a query that fails\<close>

text \<open>
  Claim C10. Whenever the query of a received domain returns an error, which it does for
  every fault of the database whatever the store holds, the worker goes on to the probe and
  the request is sent (unless it cannot be built); if the probe does not time out, the
  worker upserts the result, after which the store holds the probed value for the domain,
  also when it held another one.
\<close>

theorem C10_failed_lookup_probes_and_overwrites:
  assumes "i < length (workers s)" and "workers s ! i = WLookup d"
    and "QueryRow_has_oidc (db s) d fault = Inl e"
  shows "QueryRow_has_oidc (db s) d (Some err) = Inl (QueryError err) \<and>
    (\<exists>s1 s2.
      step cfg (Lookup i fault) s = Some s1 \<and> workers s1 ! i = WProbe d \<and>
      step cfg (Probe i x) s1 = Some s2 \<and>
      net s2 = net s @ testOIDCWithTimeout_requests d x \<and>
      (if timedOut (probe_result cfg d x)
       then workers s2 ! i = WSend (probe_result cfg d x) \<and> db s2 = db s
       else workers s2 ! i = WUpsert (probe_result cfg d x) \<and>
         (\<exists>s3. step cfg (Upsert i None now) s2 = Some s3 \<and>
            lookup (db s3) d = Some (hasOIDC (probe_result cfg d x)))))"
proof -
  let ?r = "probe_result cfg d x"
  let ?s1 = "set_worker i (WProbe d) s"
  let ?s2 = "set_worker i (if \<not> timedOut ?r then WUpsert ?r else WSend ?r)
       (?s1\<lparr>net := net ?s1 @ testOIDCWithTimeout_requests d x,
          logs := logs ?s1 @ testOIDCWithTimeout_log d x,
          probed := probed ?s1 @ [?r]\<rparr>)"
  have 1: "step cfg (Lookup i fault) s = Some ?s1"
    using assms by (simp add: step_Lookup)
  have len1: "i < length (workers ?s1)" and at1: "workers ?s1 ! i = WProbe d"
    using assms(1) by (simp_all add: set_worker_def)
  have 2: "step cfg (Probe i x) ?s1 = Some ?s2"
    by (rule step_Probe [OF len1 at1])
  have net: "net ?s2 = net s @ testOIDCWithTimeout_requests d x"
    by (simp add: set_worker_def)
  have len2: "i < length (workers ?s2)"
    using assms(1) by (simp add: set_worker_def)
  have 3: "if timedOut ?r
       then workers ?s2 ! i = WSend ?r \<and> db ?s2 = db s
       else workers ?s2 ! i = WUpsert ?r \<and>
         (\<exists>s3. step cfg (Upsert i None now) ?s2 = Some s3 \<and>
            lookup (db s3) d = Some (hasOIDC ?r))"
  proof (cases "timedOut ?r")
    case True
    then show ?thesis using assms(1) by (simp add: set_worker_def)
  next
    case False
    then have at2: "workers ?s2 ! i = WUpsert ?r"
      using assms(1) by (simp add: set_worker_def)
    have dom: "domain ?r = d"
      by (cases x) (simp_all add: probe_result_simps)
    have "\<exists>s3. step cfg (Upsert i None now) ?s2 = Some s3 \<and>
            lookup (db s3) d = Some (hasOIDC ?r)"
      using step_Upsert [OF len2 at2, of cfg None now] dom
      by (simp add: set_worker_def lookup_upsert)
    with False at2 show ?thesis by simp
  qed
  have "\<exists>s1 s2.
      step cfg (Lookup i fault) s = Some s1 \<and> workers s1 ! i = WProbe d \<and>
      step cfg (Probe i x) s1 = Some s2 \<and>
      net s2 = net s @ testOIDCWithTimeout_requests d x \<and>
      (if timedOut ?r
       then workers s2 ! i = WSend ?r \<and> db s2 = db s
       else workers s2 ! i = WUpsert ?r \<and>
         (\<exists>s3. step cfg (Upsert i None now) s2 = Some s3 \<and>
            lookup (db s3) d = Some (hasOIDC ?r)))"
    using 1 at1 2 net 3 by blast
  then show ?thesis by (simp add: QueryRow_fault)
qed

theorem C10_failed_lookup_witness:
  "0 < length (workers at_lookup_known) \<and>
   workers at_lookup_known ! 0 = WLookup ''known.example'' \<and>
   lookup (db at_lookup_known) ''known.example'' = Some True \<and>
   (\<exists>s1 s2 s3.
      step cfg_known (Lookup 0 (Some ''database is locked'')) at_lookup_known = Some s1 \<and>
      step cfg_known (Probe 0 (DoError False)) s1 = Some s2 \<and>
      net s2 = [''https://known.example/.well-known/openid-configuration''] \<and>
      step cfg_known (Upsert 0 None 1700000060) s2 = Some s3 \<and>
      lookup (db s3) ''known.example'' = Some False)"
proof -
  have h1: "0 < length (workers at_lookup_known)"
    and h2: "workers at_lookup_known ! 0 = WLookup ''known.example''"
    and h3: "lookup (db at_lookup_known) ''known.example'' = Some True"
    by (simp_all add: at_lookup_known_def tbl_known_def lookup_def)
  have q: "QueryRow_has_oidc (db at_lookup_known) ''known.example'' (Some ''database is locked'')
      = Inl (QueryError ''database is locked'')"
    by (simp add: QueryRow_fault)
  have n: "net at_lookup_known = []"
    by (simp add: at_lookup_known_def)
  have "\<exists>s1 s2 s3.
      step cfg_known (Lookup 0 (Some ''database is locked'')) at_lookup_known = Some s1 \<and>
      step cfg_known (Probe 0 (DoError False)) s1 = Some s2 \<and>
      net s2 = [''https://known.example/.well-known/openid-configuration''] \<and>
      step cfg_known (Upsert 0 None 1700000060) s2 = Some s3 \<and>
      lookup (db s3) ''known.example'' = Some False"
    using C10_failed_lookup_probes_and_overwrites
      [OF h1 h2 q, of "''database is locked''" cfg_known "DoError False" 1700000060]
    by (simp add: probe_result_simps n probe_url_def) blast
  with h1 h2 h3 show ?thesis by blast
qed

end
